theory Spec2Isabelle
  imports Main "HOL-Library.AList"
begin

section \<open>The leveled lineage graph of \<open>graph-db.ts\<close>\<close>

text \<open>
  A shallow embedding of the class \<open>GraphDb\<close> of
  \<open>datahub-web/packages/data-portal/app/utils/graph-db.ts\<close>.

  Conventions of the embedding:
  \<^item> JavaScript numbers that hold node ids and levels are integers (\<open>int\<close>); the code
    only ever adds or subtracts one.
  \<^item> A value that may be \<open>undefined\<close> is an \<open>option\<close>, \<open>None\<close> being \<open>undefined\<close>.
  \<^item> A payload is an object read through Ember's \<open>get\<close>; only the string form of a
    field is ever used (as an index key), so a payload is an association list from
    field names to the string form of the field, and an absent field reads as
    \<open>undefined\<close>.
  \<^item> Plain objects used as indexes are finite maps holding their own properties.
  \<^item> A \<open>@computed\<close> getter is evaluated on first read and its value kept until one of
    its dependent keys is set. The getters whose keys name everything they read
    (\<open>edgesByFrom\<close>, \<open>edgesByTo\<close>, \<open>nodesById\<close>, \<open>uniqueIndexes\<close>, \<open>minLevel\<close>, the
    upstream and downstream filters) are therefore views of the current fields.
    \<open>parentsByNodeId\<close> and \<open>childrenByNodeId\<close> read the edge indexes but depend on
    \<open>nodes\<close> alone: their kept values are part of the state, dropped when \<open>nodes\<close> is
    set and only then.
  \<^item> A thrown exception is a value \<open>Inl TypeError\<close>; a method that mutates the object
    returns its result together with the object as it is when the call ends.
  \<^item> The \<open>while\<close> loop of \<open>getHierarchyNodes\<close> may run forever; it is a partial
    function and \<open>None\<close> stands for a call that does not return.
\<close>

subsection \<open>Data model\<close>

type_synonym payload = "(string \<times> string) list"

record node =
  id_n :: int
  level :: int
  selected :: "bool option"
  loaded :: "bool option"
  payload :: "payload option"

record edge =
  from_e :: int
  to_e :: int

text \<open>An object keyed by node id whose values are arrays of nodes; the arrays may hold
  \<open>undefined\<close>, since an edge may name an id that no node has.\<close>

type_synonym nodeIndex = "(int \<times> node option list) list"

text \<open>The object: its four fields, and the values kept for the two getters that depend on
  \<open>nodes\<close> alone (\<open>None\<close>: nothing kept, the next read evaluates the getter).\<close>

record graph =
  nodes :: "node list"
  edges :: "edge list"
  uniqueKeys :: "string list"
  idGenerator :: int
  parentsMemo :: "nodeIndex option"
  childrenMemo :: "nodeIndex option"

text \<open>The field initialisers of the class: a fresh \<open>GraphDb\<close>.\<close>

definition newGraphDb :: graph where
  "newGraphDb = \<lparr>nodes = [], edges = [], uniqueKeys = [], idGenerator = 1,
                  parentsMemo = None, childrenMemo = None\<rparr>"

text \<open>Setting \<open>nodes\<close> drops the values kept for the getters that depend on it.\<close>

definition nodesChanged :: "graph \<Rightarrow> graph" where
  "nodesChanged g = g\<lparr>parentsMemo := None, childrenMemo := None\<rparr>"

text \<open>\<open>Partial<INode<T>>\<close>: every field may be left out (\<open>None\<close>); an optional field of
  the node may also be present and hold \<open>undefined\<close> (\<open>Some None\<close>).\<close>

record attrs =
  id_a :: "int option"
  level_a :: "int option"
  selected_a :: "bool option option"
  loaded_a :: "bool option option"
  payload_a :: "payload option option"

definition noAttrs :: attrs where
  "noAttrs = \<lparr>id_a = None, level_a = None, selected_a = None, loaded_a = None, payload_a = None\<rparr>"

datatype error = TypeError

text \<open>JavaScript truthiness of an optional boolean: \<open>undefined\<close> is falsy.\<close>

fun truthy :: "bool option \<Rightarrow> bool" where
  "truthy None = False"
| "truthy (Some b) = b"

text \<open>The string form of a possibly undefined field, as a template literal or a property
  key produces it.\<close>

fun toStr :: "string option \<Rightarrow> string" where
  "toStr None = ''undefined''"
| "toStr (Some s) = s"

text \<open>Ember's \<open>get(payload, key)\<close> and \<open>get(node, `payload.${key}`)\<close>.\<close>

definition getField :: "payload \<Rightarrow> string \<Rightarrow> string option" where
  "getField p k = map_of p k"

definition getPayloadField :: "node \<Rightarrow> string \<Rightarrow> string option" where
  "getPayloadField n k = (case payload n of None \<Rightarrow> None | Some p \<Rightarrow> getField p k)"

subsection \<open>Library helpers\<close>

text \<open>lodash \<open>keyBy\<close>: an object holding each element under its key; a later element
  replaces an earlier one with the same key.\<close>

definition keyBy :: "'a list \<Rightarrow> ('a \<Rightarrow> 'k) \<Rightarrow> ('k \<rightharpoonup> 'a)" where
  "keyBy xs f = fold (\<lambda>x m. m(f x \<mapsto> x)) xs Map.empty"

text \<open>Modelled from the spec: \<open>groupBy\<close> of \<open>@datahub/utils/array/group-by\<close> is not among
  the sources. The spec gives \<open>edgesByFrom\<close> and \<open>edgesByTo\<close> as
  "id \<rightarrow> list of edges whose from/to equals that id, in insertion order"; a key with no
  element is absent.\<close>

definition groupBy :: "'a list \<Rightarrow> ('a \<Rightarrow> 'k) \<Rightarrow> ('k \<rightharpoonup> 'a list)" where
  "groupBy xs f =
     fold (\<lambda>x m. m(f x \<mapsto> (case m (f x) of None \<Rightarrow> [x] | Some ys \<Rightarrow> ys @ [x]))) xs Map.empty"

text \<open>\<open>xs || []\<close> on a possibly undefined array.\<close>

fun orEmpty :: "'a list option \<Rightarrow> 'a list" where
  "orEmpty None = []"
| "orEmpty (Some xs) = xs"

text \<open>\<open>Array.prototype.reduce\<close> with a callback that may throw: the first exception ends
  the reduction.\<close>

fun reduceE :: "('b \<Rightarrow> 'a \<Rightarrow> error + 'b) \<Rightarrow> 'a list \<Rightarrow> 'b \<Rightarrow> error + 'b" where
  "reduceE f [] acc = Inr acc"
| "reduceE f (x # xs) acc = (case f acc x of Inl e \<Rightarrow> Inl e | Inr acc' \<Rightarrow> reduceE f xs acc')"

text \<open>The same with a callback that also changes the object: the state is threaded through,
  and an exception leaves it as it is at the throw.\<close>

fun reduceS :: "('s \<Rightarrow> 'b \<Rightarrow> 'a \<Rightarrow> (error + 'b) \<times> 's) \<Rightarrow> 'a list \<Rightarrow> 'b \<Rightarrow> 's
    \<Rightarrow> (error + 'b) \<times> 's" where
  "reduceS f [] acc s = (Inr acc, s)"
| "reduceS f (x # xs) acc s =
     (case f s acc x of
        (Inl e, s') \<Rightarrow> (Inl e, s')
      | (Inr acc', s') \<Rightarrow> reduceS f xs acc' s')"

subsection \<open>Indexes\<close>

definition edgesByFrom :: "graph \<Rightarrow> (int \<rightharpoonup> edge list)" where
  "edgesByFrom g = groupBy (edges g) from_e"

definition edgesByTo :: "graph \<Rightarrow> (int \<rightharpoonup> edge list)" where
  "edgesByTo g = groupBy (edges g) to_e"

definition nodesById :: "graph \<Rightarrow> (int \<rightharpoonup> node)" where
  "nodesById g = keyBy (nodes g) id_n"

text \<open>The bodies of the getters \<open>parentsByNodeId\<close> and \<open>childrenByNodeId\<close>: a \<open>reduce\<close>
  over the nodes that writes, under each node's id, the far ends of its edges.\<close>

definition parentsByNodeIdGetter :: "graph \<Rightarrow> nodeIndex" where
  "parentsByNodeIdGetter g =
     fold (\<lambda>n parentIdsByNodeId.
             AList.update (id_n n)
               (map (\<lambda>e. nodesById g (to_e e)) (orEmpty (edgesByFrom g (id_n n))))
               parentIdsByNodeId)
       (nodes g) []"

definition childrenByNodeIdGetter :: "graph \<Rightarrow> nodeIndex" where
  "childrenByNodeIdGetter g =
     fold (\<lambda>n childIdsByNodeId.
             AList.update (id_n n)
               (map (\<lambda>e. nodesById g (from_e e)) (orEmpty (edgesByTo g (id_n n))))
               childIdsByNodeId)
       (nodes g) []"

text \<open>Reading the properties: the kept value if there is one, whatever has happened to the
  edges since; otherwise the getter runs and its value is kept.\<close>

definition parentsByNodeId :: "graph \<Rightarrow> nodeIndex \<times> graph" where
  "parentsByNodeId g =
     (case parentsMemo g of
        Some v \<Rightarrow> (v, g)
      | None \<Rightarrow> (let v = parentsByNodeIdGetter g in (v, g\<lparr>parentsMemo := Some v\<rparr>)))"

definition childrenByNodeId :: "graph \<Rightarrow> nodeIndex \<times> graph" where
  "childrenByNodeId g =
     (case childrenMemo g of
        Some v \<Rightarrow> (v, g)
      | None \<Rightarrow> (let v = childrenByNodeIdGetter g in (v, g\<lparr>childrenMemo := Some v\<rparr>)))"

definition downstreamNodes :: "graph \<Rightarrow> node list" where
  "downstreamNodes g = filter (\<lambda>n. level n > 0) (nodes g)"

definition upstreamNodes :: "graph \<Rightarrow> node list" where
  "upstreamNodes g = filter (\<lambda>n. level n < 0) (nodes g)"

definition uniqueIndexes :: "graph \<Rightarrow> (string \<rightharpoonup> (string \<rightharpoonup> node))" where
  "uniqueIndexes g =
     fold (\<lambda>propertyName indexes.
             indexes(propertyName \<mapsto> keyBy (nodes g) (\<lambda>n. toStr (getPayloadField n propertyName))))
       (uniqueKeys g) Map.empty"


subsection \<open>Queries\<close>

text \<open>\<open>findNode\<close>: the first unique key whose index holds the payload's value decides.
  Reading a property of an undefined index would throw.\<close>

definition findNodeStep :: "graph \<Rightarrow> payload \<Rightarrow> node option \<Rightarrow> string \<Rightarrow> error + node option" where
  "findNodeStep g nodePayload object uniqueKey =
     (case object of
        Some n \<Rightarrow> Inr (Some n)
      | None \<Rightarrow>
         (case uniqueIndexes g uniqueKey of
            None \<Rightarrow> Inl TypeError
          | Some index \<Rightarrow> Inr (index (toStr (getField nodePayload uniqueKey)))))"

definition findNode :: "graph \<Rightarrow> payload \<Rightarrow> error + node option" where
  "findNode g nodePayload = reduceE (findNodeStep g nodePayload) (uniqueKeys g) None"

definition getIsUpstream :: "node \<Rightarrow> bool" where
  "getIsUpstream n = (level n < 0)"

text \<open>The callback of the \<open>reduce\<close> inside \<open>getHierarchyNodes\<close>. Reading \<open>level\<close> of
  \<open>undefined\<close> throws, and so does spreading an undefined entry of the index. The index
  is read only for a node that is not at the stop level.\<close>

definition expandNode :: "bool \<Rightarrow> int \<Rightarrow> graph \<Rightarrow> node option list \<Rightarrow> node option
    \<Rightarrow> (error + node option list) \<times> graph" where
  "expandNode up stopAtLevel g newNodes n =
     (case n of
        None \<Rightarrow> (Inl TypeError, g)
      | Some nd \<Rightarrow>
          if level nd \<noteq> stopAtLevel then
            (let (graphDbQuery, g') = (if up then parentsByNodeId g else childrenByNodeId g)
             in case map_of graphDbQuery (id_n nd) of
                  None \<Rightarrow> (Inl TypeError, g')
                | Some ns \<Rightarrow> (Inr (newNodes @ ns), g'))
          else (Inr newNodes, g))"

partial_function (option) hierarchyLoop ::
    "graph \<Rightarrow> bool \<Rightarrow> int \<Rightarrow> node option list \<Rightarrow> node option list
      \<Rightarrow> ((error + node option list) \<times> graph) option" where
  "hierarchyLoop g up stopAtLevel exploredNodes currentNodes =
     (if length currentNodes \<noteq> 0 then
        (case reduceS (expandNode up stopAtLevel) currentNodes [] g of
           (Inl e, g') \<Rightarrow> Some (Inl e, g')
         | (Inr newNodes, g') \<Rightarrow>
             hierarchyLoop g' up stopAtLevel (exploredNodes @ newNodes) newNodes)
      else Some (Inr exploredNodes, g))"

declare hierarchyLoop.simps [code]

definition getHierarchyNodes :: "graph \<Rightarrow> node option \<Rightarrow> bool \<Rightarrow> int
    \<Rightarrow> ((error + node option list) \<times> graph) option" where
  "getHierarchyNodes g n up stopAtLevel = hierarchyLoop g up stopAtLevel [n] [n]"

subsection \<open>Mutators\<close>

text \<open>\<open>addEdge(parent, child)\<close>: \<open>find\<close> yields the first edge of \<open>edgesByFrom[edge.from]\<close>
  with the same \<open>to\<close>, or \<open>undefined\<close>; the edge is appended when it yields \<open>undefined\<close>.\<close>

definition addEdge :: "graph \<Rightarrow> node \<Rightarrow> node \<Rightarrow> graph" where
  "addEdge g parent child =
     (let edge = \<lparr>from_e = id_n child, to_e = id_n parent\<rparr>;
          fromIndex = orEmpty (edgesByFrom g (from_e edge));
          alreadyExists = find (\<lambda>otherEdge. to_e otherEdge = to_e edge) fromIndex
      in if alreadyExists = None then g\<lparr>edges := edges g @ [edge]\<rparr> else g)"

text \<open>The object spread \<open>{...node, ...attrs}\<close>: a field present in \<open>attrs\<close> replaces the
  node's.\<close>

definition mergeAttrs :: "node \<Rightarrow> attrs \<Rightarrow> node" where
  "mergeAttrs n a =
     \<lparr>id_n = (case id_a a of None \<Rightarrow> id_n n | Some v \<Rightarrow> v),
      level = (case level_a a of None \<Rightarrow> level n | Some v \<Rightarrow> v),
      selected = (case selected_a a of None \<Rightarrow> selected n | Some v \<Rightarrow> v),
      loaded = (case loaded_a a of None \<Rightarrow> loaded n | Some v \<Rightarrow> v),
      payload = (case payload_a a of None \<Rightarrow> payload n | Some v \<Rightarrow> v)\<rparr>"

definition setNodeAttrs :: "graph \<Rightarrow> int \<Rightarrow> attrs \<Rightarrow> graph" where
  "setNodeAttrs g i a =
     nodesChanged (g\<lparr>nodes := map (\<lambda>n. if id_n n = i then mergeAttrs n a else n) (nodes g)\<rparr>)"

text \<open>\<open>addNode(node, parentNode?, upstream?)\<close> returns the node found or created and the
  updated graph.\<close>

definition addNode :: "graph \<Rightarrow> payload \<Rightarrow> node option \<Rightarrow> bool option \<Rightarrow> (error + node) \<times> graph" where
  "addNode g p parentNode upstream =
     (case findNode g p of
        Inl e \<Rightarrow> (Inl e, g)
      | Inr found \<Rightarrow>
          (let (newNode, g1) =
                 (case found of
                    Some n \<Rightarrow> (n, g)
                  | None \<Rightarrow>
                      (let lvl = (case parentNode of
                                    Some pn \<Rightarrow> if truthy upstream then level pn - 1 else level pn + 1
                                  | None \<Rightarrow> 0);
                           n = \<lparr>id_n = idGenerator g, level = lvl, selected = None,
                                loaded = None, payload = Some p\<rparr>
                       in (n, nodesChanged
                                (g\<lparr>nodes := nodes g @ [n], idGenerator := idGenerator g + 1\<rparr>))))
           in (case parentNode of
                 None \<Rightarrow> (Inr newNode, g1)
               | Some pn \<Rightarrow>
                   (let edgeParent = (if truthy upstream then pn else newNode);
                        edgeChild = (if truthy upstream then newNode else pn)
                    in (Inr newNode, addEdge g1 edgeChild edgeParent)))))"

text \<open>The two \<open>forEach\<close> loops of \<open>toggle\<close>: every element is patched by id, one after
  the other. Reading \<open>id\<close> of \<open>undefined\<close> throws and leaves the patches made so far.\<close>

definition selectedPatch :: "bool \<Rightarrow> attrs" where
  "selectedPatch b = noAttrs\<lparr>selected_a := Some (Some b)\<rparr>"

fun forEachSetSelected :: "bool \<Rightarrow> node option list \<Rightarrow> graph \<Rightarrow> (error + unit) \<times> graph" where
  "forEachSetSelected b [] g = (Inr (), g)"
| "forEachSetSelected b (None # ns) g = (Inl TypeError, g)"
| "forEachSetSelected b (Some n # ns) g =
     forEachSetSelected b ns (setNodeAttrs g (id_n n) (selectedPatch b))"

text \<open>The first half of \<open>toggle\<close>: the arrays \<open>toUnselect\<close> and \<open>toSelect\<close>.\<close>

definition toggleSets :: "graph \<Rightarrow> node
    \<Rightarrow> ((error + node option list \<times> node option list) \<times> graph) option" where
  "toggleSets g nd =
     (let upstream = getIsUpstream nd in
      if truthy (selected nd) then
        (if level nd = 0 then Some (Inr (map Some (nodes g), []), g)
         else
           (case getHierarchyNodes g (Some nd) upstream 0 of
              None \<Rightarrow> None
            | Some (Inl e, g') \<Rightarrow> Some (Inl e, g')
            | Some (Inr hs, g') \<Rightarrow> Some (Inr (hs, []), g')))
      else
        (case getHierarchyNodes g (Some nd) (\<not> upstream) 0 of
           None \<Rightarrow> None
         | Some (Inl e, g') \<Rightarrow> Some (Inl e, g')
         | Some (Inr hs, g') \<Rightarrow>
             Some (Inr (map Some (if upstream then upstreamNodes g else downstreamNodes g), hs),
                   g')))"

text \<open>The second half: the patches.\<close>

definition applySelection :: "graph \<Rightarrow> node \<Rightarrow> node option list \<Rightarrow> node option list
    \<Rightarrow> (error + unit) \<times> graph" where
  "applySelection g nd toUnselect toSelect =
     (case forEachSetSelected False toUnselect g of
        (Inl e, g1) \<Rightarrow> (Inl e, g1)
      | (Inr u, g1) \<Rightarrow>
          (case forEachSetSelected True toSelect g1 of
             (Inl e, g2) \<Rightarrow> (Inl e, g2)
           | (Inr v, g2) \<Rightarrow>
               (Inr (), setNodeAttrs g2 (id_n nd) (selectedPatch (\<not> truthy (selected nd))))))"

text \<open>\<open>toggle(id)\<close>: destructuring \<open>nodesById[id]\<close> throws when the id is unknown.\<close>

definition toggle :: "graph \<Rightarrow> int \<Rightarrow> ((error + unit) \<times> graph) option" where
  "toggle g i =
     (case nodesById g i of
        None \<Rightarrow> Some (Inl TypeError, g)
      | Some nd \<Rightarrow>
          (case toggleSets g nd of
             None \<Rightarrow> None
           | Some (Inl e, g') \<Rightarrow> Some (Inl e, g')
           | Some (Inr (toUnselect, toSelect), g') \<Rightarrow>
               Some (applySelection g' nd toUnselect toSelect)))"

subsection \<open>Notions used in the proofs\<close>

text \<open>The index that a read yields in a given state, and the state after the read.\<close>

definition indexOf :: "bool \<Rightarrow> graph \<Rightarrow> nodeIndex" where
  "indexOf up g =
     (if up then (case parentsMemo g of Some v \<Rightarrow> v | None \<Rightarrow> parentsByNodeIdGetter g)
      else (case childrenMemo g of Some v \<Rightarrow> v | None \<Rightarrow> childrenByNodeIdGetter g))"

definition afterRead :: "bool \<Rightarrow> graph \<Rightarrow> graph" where
  "afterRead up g =
     (if up then g\<lparr>parentsMemo := Some (indexOf True g)\<rparr>
      else g\<lparr>childrenMemo := Some (indexOf False g)\<rparr>)"

text \<open>The closure over a fixed index, without the object.\<close>

definition expandIn :: "(int \<rightharpoonup> node option list) \<Rightarrow> int \<Rightarrow> node option list \<Rightarrow> node option
    \<Rightarrow> error + node option list" where
  "expandIn idx stopAtLevel newNodes n =
     (case n of
        None \<Rightarrow> Inl TypeError
      | Some nd \<Rightarrow>
          if level nd \<noteq> stopAtLevel then
            (case idx (id_n nd) of
               None \<Rightarrow> Inl TypeError
             | Some ns \<Rightarrow> Inr (newNodes @ ns))
          else Inr newNodes)"

partial_function (option) loopIn ::
    "(int \<rightharpoonup> node option list) \<Rightarrow> int \<Rightarrow> node option list \<Rightarrow> node option list
      \<Rightarrow> (error + node option list) option" where
  "loopIn idx stopAtLevel exploredNodes currentNodes =
     (if length currentNodes \<noteq> 0 then
        (case reduceE (expandIn idx stopAtLevel) currentNodes [] of
           Inl e \<Rightarrow> Some (Inl e)
         | Inr newNodes \<Rightarrow> loopIn idx stopAtLevel (exploredNodes @ newNodes) newNodes)
      else Some (Inr exploredNodes))"

text \<open>Level consistency, the discipline that \<open>addNode\<close> follows when it creates a node:
  both ends of every edge are nodes of the graph, and the \<open>from\<close> end lies one level above
  the \<open>to\<close> end.\<close>

definition levelled :: "graph \<Rightarrow> bool" where
  "levelled g =
     list_all (\<lambda>e. case (nodesById g (from_e e), nodesById g (to_e e)) of
                      (Some a, Some b) \<Rightarrow> level a = level b + 1
                    | _ \<Rightarrow> False)
       (edges g)"

text \<open>A kept index is at worst out of date: it is what its getter yields on the current
  nodes and some initial part of the current edges (edges are only ever appended).\<close>

definition getterOf :: "bool \<Rightarrow> graph \<Rightarrow> nodeIndex" where
  "getterOf up g = (if up then parentsByNodeIdGetter g else childrenByNodeIdGetter g)"

definition memoAt :: "bool \<Rightarrow> graph \<Rightarrow> bool" where
  "memoAt up g =
     list_ex (\<lambda>k. indexOf up g = getterOf up (g\<lparr>edges := take k (edges g)\<rparr>))
       [0..<Suc (length (edges g))]"

definition memoOk :: "graph \<Rightarrow> bool" where
  "memoOk g = (memoAt True g \<and> memoAt False g)"

text \<open>The potential of a node: its level when walking up, the opposite when walking down.
  One expansion lowers it by one.\<close>

definition potential :: "bool \<Rightarrow> node \<Rightarrow> int" where
  "potential up n = (if up then level n else - level n)"

text \<open>A frontier of nodes of the graph that all have the same potential.\<close>

definition frontierAt :: "graph \<Rightarrow> bool \<Rightarrow> int \<Rightarrow> node option list \<Rightarrow> bool" where
  "frontierAt g up p cur =
     (\<forall>x \<in> set cur. \<exists>n. x = Some n \<and> nodesById g (id_n n) = Some n \<and> potential up n = p)"

text \<open>What a \<open>toggle\<close> that returns does to one node: \<open>b\<close> is the new flag of the toggled
  id, \<open>S\<close> the ids to select and \<open>U\<close> the ids to unselect.\<close>

definition toggleMap :: "int \<Rightarrow> bool \<Rightarrow> int set \<Rightarrow> int set \<Rightarrow> node \<Rightarrow> node" where
  "toggleMap i b S U n =
     (if id_n n = i then n\<lparr>selected := Some b\<rparr>
      else if id_n n \<in> S then n\<lparr>selected := Some True\<rparr>
      else if id_n n \<in> U then n\<lparr>selected := Some False\<rparr>
      else n)"

subsection \<open>Sequences of calls\<close>

text \<open>The four mutating operations and the closure query (which may fill a kept index) as
  commands, to speak about every state that a sequence of calls leads to. A call that
  throws leaves the object as it is at the throw; a call that does not return leaves no
  next state.\<close>

datatype op =
  AddNode payload "node option" "bool option"
| AddEdge node node
| SetNodeAttrs int attrs
| Toggle int
| GetHierarchyNodes node bool int

fun applyOp :: "graph \<Rightarrow> op \<Rightarrow> graph option" where
  "applyOp g (AddNode p parentNode upstream) = Some (snd (addNode g p parentNode upstream))"
| "applyOp g (AddEdge parent child) = Some (addEdge g parent child)"
| "applyOp g (SetNodeAttrs i a) = Some (setNodeAttrs g i a)"
| "applyOp g (Toggle i) = map_option snd (toggle g i)"
| "applyOp g (GetHierarchyNodes n up stopAtLevel) =
     map_option snd (getHierarchyNodes g (Some n) up stopAtLevel)"

fun run :: "graph \<Rightarrow> op list \<Rightarrow> graph option" where
  "run g [] = Some g"
| "run g (c # cs) = (case applyOp g c of None \<Rightarrow> None | Some g' \<Rightarrow> run g' cs)"

text \<open>A call whose patch, if it has one, carries no \<open>id\<close> field.\<close>

fun keepsId :: "op \<Rightarrow> bool" where
  "keepsId (SetNodeAttrs i a) = (id_a a = None)"
| "keepsId c = True"

subsection \<open>Example graphs\<close>

definition urn :: "string \<Rightarrow> payload" where
  "urn u = [(''urn'', u)]"

text \<open>The graph of three nodes: a root \<open>A\<close>, \<open>B\<close> upstream of it and \<open>C\<close> downstream.\<close>

definition nodeA :: node where
  "nodeA = \<lparr>id_n = 1, level = 0, selected = None, loaded = None, payload = Some (urn ''A'')\<rparr>"

definition nodeB :: node where
  "nodeB = \<lparr>id_n = 2, level = - 1, selected = None, loaded = None, payload = Some (urn ''B'')\<rparr>"

definition nodeC :: node where
  "nodeC = \<lparr>id_n = 3, level = 1, selected = None, loaded = None, payload = Some (urn ''C'')\<rparr>"

definition fixture :: graph where
  "fixture = \<lparr>nodes = [nodeA, nodeB, nodeC],
              edges = [\<lparr>from_e = 1, to_e = 2\<rparr>, \<lparr>from_e = 3, to_e = 1\<rparr>],
              uniqueKeys = [''urn''], idGenerator = 4,
              parentsMemo = None, childrenMemo = None\<rparr>"

text \<open>A diamond below the root: \<open>D\<close> has the parents \<open>P\<close> and \<open>Q\<close>, both children of
  \<open>A\<close>.\<close>

definition nodeP :: node where
  "nodeP = \<lparr>id_n = 2, level = 1, selected = None, loaded = None, payload = Some (urn ''P'')\<rparr>"

definition nodeQ :: node where
  "nodeQ = \<lparr>id_n = 3, level = 1, selected = None, loaded = None, payload = Some (urn ''Q'')\<rparr>"

definition nodeD :: node where
  "nodeD = \<lparr>id_n = 4, level = 2, selected = None, loaded = None, payload = Some (urn ''D'')\<rparr>"

definition diamond :: graph where
  "diamond = \<lparr>nodes = [nodeA, nodeP, nodeQ, nodeD],
              edges = [\<lparr>from_e = 2, to_e = 1\<rparr>, \<lparr>from_e = 3, to_e = 1\<rparr>,
                       \<lparr>from_e = 4, to_e = 2\<rparr>, \<lparr>from_e = 4, to_e = 3\<rparr>],
              uniqueKeys = [''urn''], idGenerator = 5,
              parentsMemo = None, childrenMemo = None\<rparr>"


text \<open>The child \<open>C\<close> of the root, added once more as a child of itself: the node is found
  by its key, and only the edge 2 \<rightarrow> 2 is added.\<close>

definition nodeC2 :: node where
  "nodeC2 = \<lparr>id_n = 2, level = 1, selected = None, loaded = None, payload = Some (urn ''C'')\<rparr>"

definition selfLoop :: graph where
  "selfLoop = \<lparr>nodes = [nodeA, nodeC2],
               edges = [\<lparr>from_e = 2, to_e = 1\<rparr>, \<lparr>from_e = 2, to_e = 2\<rparr>],
               uniqueKeys = [''urn''], idGenerator = 3,
               parentsMemo = None, childrenMemo = None\<rparr>"

text \<open>A fresh graph, with no unique key, after one \<open>addNode\<close>.\<close>

definition onceAdded :: graph where
  "onceAdded = \<lparr>nodes = [nodeA], edges = [], uniqueKeys = [], idGenerator = 2,
                 parentsMemo = None, childrenMemo = None\<rparr>"

text \<open>The child \<open>C\<close> of the root with a second edge, to the id 9 of a node object that
  is not in the graph.\<close>

definition ghost :: node where
  "ghost = \<lparr>id_n = 9, level = 0, selected = None, loaded = None, payload = Some (urn ''G'')\<rparr>"

definition dangling :: graph where
  "dangling = \<lparr>nodes = [nodeA, nodeC2],
               edges = [\<lparr>from_e = 2, to_e = 1\<rparr>, \<lparr>from_e = 2, to_e = 9\<rparr>],
               uniqueKeys = [''urn''], idGenerator = 3,
               parentsMemo = None, childrenMemo = None\<rparr>"

text \<open>A second parent given late. \<open>M\<close> is a child of the root and \<open>N\<close> a child of \<open>M\<close>;
  \<open>K\<close> is added as a second parent of \<open>N\<close>, at level 1 and without parents of its own;
  the closure of \<open>K\<close> is queried; then \<open>K\<close> is made a child of the root.\<close>

definition nodeM :: node where
  "nodeM = \<lparr>id_n = 2, level = 1, selected = None, loaded = None, payload = Some (urn ''M'')\<rparr>"

definition nodeN :: node where
  "nodeN = \<lparr>id_n = 3, level = 2, selected = None, loaded = None, payload = Some (urn ''N'')\<rparr>"

definition nodeK :: node where
  "nodeK = \<lparr>id_n = 4, level = 1, selected = None, loaded = None, payload = Some (urn ''K'')\<rparr>"

definition lateParentCalls :: "op list" where
  "lateParentCalls =
     [AddNode (urn ''A'') None None, AddNode (urn ''M'') (Some nodeA) None,
      AddNode (urn ''N'') (Some nodeM) None, AddNode (urn ''K'') (Some nodeN) (Some True),
      GetHierarchyNodes nodeK True 0, AddNode (urn ''K'') (Some nodeA) None]"

definition lateParent :: graph where
  "lateParent = \<lparr>nodes = [nodeA, nodeM, nodeN, nodeK],
                 edges = [\<lparr>from_e = 2, to_e = 1\<rparr>, \<lparr>from_e = 3, to_e = 2\<rparr>,
                          \<lparr>from_e = 3, to_e = 4\<rparr>, \<lparr>from_e = 4, to_e = 1\<rparr>],
                 uniqueKeys = [''urn''], idGenerator = 5,
                 parentsMemo = Some [(1, []), (2, [Some nodeA]), (3, [Some nodeM, Some nodeK]),
                                     (4, [])],
                 childrenMemo = None\<rparr>"

lemmas example_defs = fixture_def diamond_def nodeA_def nodeB_def nodeC_def nodeP_def nodeQ_def
  nodeD_def urn_def nodeC2_def selfLoop_def ghost_def dangling_def nodeM_def nodeN_def nodeK_def
  lateParent_def lateParentCalls_def

section \<open>Properties of the helpers and indexes\<close>

lemma keyBy_Nil: "keyBy [] f = Map.empty"
  by (simp add: keyBy_def)

lemma keyBy_snoc: "keyBy (xs @ [x]) f = (keyBy xs f)(f x \<mapsto> x)"
  by (simp add: keyBy_def)

lemma keyBy_None_iff: "keyBy xs f k = None \<longleftrightarrow> k \<notin> f ` set xs"
  by (induction xs rule: rev_induct) (auto simp: keyBy_Nil keyBy_snoc)

lemma keyBy_SomeD: "keyBy xs f k = Some x \<Longrightarrow> x \<in> set xs \<and> f x = k"
  by (induction xs rule: rev_induct) (auto simp: keyBy_Nil keyBy_snoc split: if_splits)

lemma keyBy_distinct: "distinct (map f xs) \<Longrightarrow> x \<in> set xs \<Longrightarrow> keyBy xs f (f x) = Some x"
  by (induction xs rule: rev_induct) (auto simp: keyBy_Nil keyBy_snoc image_iff)

lemma groupBy_Nil: "groupBy [] f = Map.empty"
  by (simp add: groupBy_def)

lemma groupBy_snoc:
  "groupBy (xs @ [x]) f =
     (groupBy xs f)(f x \<mapsto> (case groupBy xs f (f x) of None \<Rightarrow> [x] | Some ys \<Rightarrow> ys @ [x]))"
  by (simp add: groupBy_def)

lemma groupBy_filter:
  "groupBy xs f k =
     (if filter (\<lambda>x. f x = k) xs = [] then None else Some (filter (\<lambda>x. f x = k) xs))"
  by (induction xs rule: rev_induct) (auto simp: groupBy_Nil groupBy_snoc)

lemma orEmpty_groupBy: "orEmpty (groupBy xs f k) = filter (\<lambda>x. f x = k) xs"
  by (simp add: groupBy_filter)

lemma fold_upd_key:
  "fold (\<lambda>n m. m(k n \<mapsto> F (k n))) xs m0 i = (if i \<in> k ` set xs then Some (F i) else m0 i)"
  by (induction xs arbitrary: m0) auto

lemma nodesById_None_iff: "nodesById g i = None \<longleftrightarrow> i \<notin> id_n ` set (nodes g)"
  by (simp add: nodesById_def keyBy_None_iff)

lemma nodesById_SomeD: "nodesById g i = Some n \<Longrightarrow> n \<in> set (nodes g) \<and> id_n n = i"
  unfolding nodesById_def by (rule keyBy_SomeD)


lemma keyBy_map:
  assumes "\<And>x. f (h x) = f x"
  shows "keyBy (map h xs) f k = map_option h (keyBy xs f k)"
  by (induction xs rule: rev_induct) (simp_all add: keyBy_Nil keyBy_snoc assms)

lemma fold_alist_key:
  "map_of (fold (\<lambda>n acc. AList.update (k n) (F (k n)) acc) xs al) i =
     (if i \<in> k ` set xs then Some (F i) else map_of al i)"
  by (induction xs arbitrary: al) (auto simp: update_conv')

lemma parentsByNodeIdGetter_eq:
  "map_of (parentsByNodeIdGetter g) i =
     (if i \<in> id_n ` set (nodes g)
      then Some (map (\<lambda>e. nodesById g (to_e e)) (filter (\<lambda>e. from_e e = i) (edges g)))
      else None)"
  unfolding parentsByNodeIdGetter_def edgesByFrom_def orEmpty_groupBy
  by (rule fold_alist_key [where k = id_n
        and F = "\<lambda>j. map (\<lambda>e. nodesById g (to_e e)) (filter (\<lambda>e. from_e e = j) (edges g))",
        THEN trans]) simp

lemma childrenByNodeIdGetter_eq:
  "map_of (childrenByNodeIdGetter g) i =
     (if i \<in> id_n ` set (nodes g)
      then Some (map (\<lambda>e. nodesById g (from_e e)) (filter (\<lambda>e. to_e e = i) (edges g)))
      else None)"
  unfolding childrenByNodeIdGetter_def edgesByTo_def orEmpty_groupBy
  by (rule fold_alist_key [where k = id_n
        and F = "\<lambda>j. map (\<lambda>e. nodesById g (from_e e)) (filter (\<lambda>e. to_e e = j) (edges g))",
        THEN trans]) simp

subsection \<open>Reading a kept index\<close>

lemma read_index:
  "(if up then parentsByNodeId g else childrenByNodeId g) = (indexOf up g, afterRead up g)"
  by (cases g)
    (auto simp: parentsByNodeId_def childrenByNodeId_def indexOf_def afterRead_def Let_def
      split: option.splits)

lemma afterRead_fields:
  "nodes (afterRead up g) = nodes g"
  "edges (afterRead up g) = edges g"
  "uniqueKeys (afterRead up g) = uniqueKeys g"
  "idGenerator (afterRead up g) = idGenerator g"
  by (simp_all add: afterRead_def)

lemma getter_afterRead:
  "parentsByNodeIdGetter (afterRead up g) = parentsByNodeIdGetter g"
  "childrenByNodeIdGetter (afterRead up g) = childrenByNodeIdGetter g"
  by (simp_all add: parentsByNodeIdGetter_def childrenByNodeIdGetter_def afterRead_def
      nodesById_def edgesByFrom_def edgesByTo_def)

lemma indexOf_afterRead: "indexOf up (afterRead up g) = indexOf up g"
  by (simp add: indexOf_def afterRead_def)

lemma afterRead_idem: "afterRead up (afterRead up g) = afterRead up g"
  by (simp add: afterRead_def indexOf_def)

lemma nodesChanged_afterRead: "nodesChanged (afterRead up g) = nodesChanged g"
  by (simp add: nodesChanged_def afterRead_def)

lemma expandNode_sim:
  "expandNode up stopAtLevel g acc n =
     (expandIn (map_of (indexOf up g)) stopAtLevel acc n,
      if (\<exists>nd. n = Some nd \<and> level nd \<noteq> stopAtLevel) then afterRead up g else g)"
  by (cases n) (auto simp: expandNode_def expandIn_def read_index split: option.splits)

lemma reduceS_sim:
  "\<exists>g'. reduceS (expandNode up stopAtLevel) cur acc g =
          (reduceE (expandIn (map_of (indexOf up g)) stopAtLevel) cur acc, g')
        \<and> (g' = g \<or> g' = afterRead up g)"
proof (induction cur arbitrary: acc g)
  case Nil
  then show ?case by simp
next
  case (Cons x cur)
  show ?case
  proof (cases "expandIn (map_of (indexOf up g)) stopAtLevel acc x")
    case (Inl e)
    then show ?thesis by (auto simp: expandNode_sim)
  next
    case (Inr acc')
    show ?thesis
    proof (cases "\<exists>nd. x = Some nd \<and> level nd \<noteq> stopAtLevel")
      case True
      from Cons.IH [of acc' "afterRead up g"] show ?thesis
        using Inr True by (auto simp: expandNode_sim indexOf_afterRead afterRead_idem)
    next
      case False
      from Cons.IH [of acc' g] show ?thesis
        using Inr False by (auto simp: expandNode_sim)
    qed
  qed
qed

lemma loopIn_Nil: "loopIn idx stopAtLevel ex [] = Some (Inr ex)"
  by (simp add: loopIn.simps)

lemma loopIn_Cons:
  "loopIn idx stopAtLevel ex (c # cs) =
     (case reduceE (expandIn idx stopAtLevel) (c # cs) [] of
        Inl e \<Rightarrow> Some (Inl e)
      | Inr newNodes \<Rightarrow> loopIn idx stopAtLevel (ex @ newNodes) newNodes)"
  by (subst loopIn.simps) simp

lemma hierarchyLoop_Nil: "hierarchyLoop g up stopAtLevel ex [] = Some (Inr ex, g)"
  by (simp add: hierarchyLoop.simps)

lemma hierarchyLoop_Cons:
  "hierarchyLoop g up stopAtLevel ex (c # cs) =
     (case reduceS (expandNode up stopAtLevel) (c # cs) [] g of
        (Inl e, g') \<Rightarrow> Some (Inl e, g')
      | (Inr newNodes, g') \<Rightarrow> hierarchyLoop g' up stopAtLevel (ex @ newNodes) newNodes)"
  by (subst hierarchyLoop.simps) simp

text \<open>The closure on the object is the closure over the index that the first read yields;
  the object afterwards is the one before, or the one after a read.\<close>

lemma loopIn_hierarchyLoop:
  assumes "loopIn idx stopAtLevel ex cur = Some r"
  shows "\<forall>g up. idx = map_of (indexOf up g) \<longrightarrow>
           (\<exists>g'. hierarchyLoop g up stopAtLevel ex cur = Some (r, g')
                 \<and> (g' = g \<or> g' = afterRead up g))"
proof (induct rule: loopIn.raw_induct [OF _ assms])
  case (1 loop idx stopAtLevel ex cur r)
  show ?case
  proof (intro allI impI)
    fix g up
    assume idx: "idx = map_of (indexOf up g)"
    show "\<exists>g'. hierarchyLoop g up stopAtLevel ex cur = Some (r, g')
                 \<and> (g' = g \<or> g' = afterRead up g)"
    proof (cases cur)
      case Nil
      then show ?thesis using 1(2) by (simp add: hierarchyLoop_Nil)
    next
      case (Cons c cs)
      from reduceS_sim [of up stopAtLevel cur "[]" g] obtain g1 where
        g1: "reduceS (expandNode up stopAtLevel) cur [] g =
               (reduceE (expandIn idx stopAtLevel) cur [], g1)"
          "g1 = g \<or> g1 = afterRead up g"
        unfolding idx by blast
      show ?thesis
      proof (cases "reduceE (expandIn idx stopAtLevel) cur []")
        case (Inl e)
        then have "r = Inl e" using 1(2) Cons by simp
        then show ?thesis using g1 Inl unfolding Cons by (auto simp: hierarchyLoop_Cons)
      next
        case (Inr new)
        then have rec: "loop idx stopAtLevel (ex @ new) new = Some r"
          using 1(2) Cons by simp
        have idx1: "idx = map_of (indexOf up g1)"
          using g1(2) idx by (auto simp: indexOf_afterRead)
        from 1(1) [OF rec, rule_format, OF idx1] obtain g' where
          g': "hierarchyLoop g1 up stopAtLevel (ex @ new) new = Some (r, g')"
            "g' = g1 \<or> g' = afterRead up g1" by blast
        have "hierarchyLoop g up stopAtLevel ex cur = Some (r, g')"
          using g1(1) Inr g'(1) unfolding Cons by (simp add: hierarchyLoop_Cons)
        moreover have "g' = g \<or> g' = afterRead up g"
          using g1(2) g'(2) by (auto simp: afterRead_idem)
        ultimately show ?thesis by blast
      qed
    qed
  qed
qed

lemma hierarchyLoop_loopIn:
  assumes "hierarchyLoop g up stopAtLevel ex cur = Some y"
  shows "loopIn (map_of (indexOf up g)) stopAtLevel ex cur = Some (fst y)"
proof (induct rule: hierarchyLoop.raw_induct [OF _ assms])
  case (1 loop g up stopAtLevel ex cur y)
  show ?case
  proof (cases cur)
    case Nil
    then show ?thesis using 1(2) by (auto simp: loopIn_Nil)
  next
    case (Cons c cs)
    from reduceS_sim [of up stopAtLevel cur "[]" g] obtain g1 where
      g1: "reduceS (expandNode up stopAtLevel) cur [] g =
             (reduceE (expandIn (map_of (indexOf up g)) stopAtLevel) cur [], g1)"
        "g1 = g \<or> g1 = afterRead up g"
      by blast
    show ?thesis
    proof (cases "reduceE (expandIn (map_of (indexOf up g)) stopAtLevel) cur []")
      case (Inl e)
      then show ?thesis using 1(2) g1(1) unfolding Cons by (auto simp: loopIn_Cons)
    next
      case (Inr new)
      then have rec: "loop g1 up stopAtLevel (ex @ new) new = Some y"
        using 1(2) g1(1) Cons by simp
      have "indexOf up g1 = indexOf up g"
        using g1(2) by (auto simp: indexOf_afterRead)
      with 1(1) [OF rec] show ?thesis
        using Inr unfolding Cons by (simp add: loopIn_Cons)
    qed
  qed
qed

lemma getHierarchyNodes_loopIn:
  "map_option fst (getHierarchyNodes g n up stopAtLevel) =
     loopIn (map_of (indexOf up g)) stopAtLevel [n] [n]"
proof (cases "loopIn (map_of (indexOf up g)) stopAtLevel [n] [n]")
  case None
  then show ?thesis
    using hierarchyLoop_loopIn [of g up stopAtLevel "[n]" "[n]"]
    by (cases "getHierarchyNodes g n up stopAtLevel") (auto simp: getHierarchyNodes_def)
next
  case (Some r)
  from loopIn_hierarchyLoop [OF Some, rule_format, OF refl] show ?thesis
    using Some by (auto simp: getHierarchyNodes_def)
qed

lemma getHierarchyNodes_state:
  assumes "getHierarchyNodes g n up stopAtLevel = Some (r, g')"
  shows "g' = g \<or> g' = afterRead up g"
proof -
  have "loopIn (map_of (indexOf up g)) stopAtLevel [n] [n] = Some r"
    using hierarchyLoop_loopIn [OF assms [unfolded getHierarchyNodes_def]] by simp
  from loopIn_hierarchyLoop [OF this, rule_format, OF refl] show ?thesis
    using assms by (auto simp: getHierarchyNodes_def)
qed

subsection \<open>The patches of \<open>toggle\<close>\<close>

lemma mergeAttrs_selectedPatch: "mergeAttrs n (selectedPatch b) = n\<lparr>selected := Some b\<rparr>"
  by (simp add: mergeAttrs_def selectedPatch_def noAttrs_def)

lemma levelledD:
  assumes "levelled g" and "e \<in> set (edges g)"
  shows "\<exists>a b. nodesById g (from_e e) = Some a \<and> nodesById g (to_e e) = Some b
           \<and> level a = level b + 1"
proof -
  from assms have "case (nodesById g (from_e e), nodesById g (to_e e)) of
                      (Some a, Some b) \<Rightarrow> level a = level b + 1
                    | _ \<Rightarrow> False"
    by (simp add: levelled_def list_all_iff)
  then show ?thesis
    by (cases "nodesById g (from_e e)"; cases "nodesById g (to_e e)") simp_all
qed

lemma frontierAt_simps:
  "frontierAt g up p []"
  "frontierAt g up p (xs @ ys) \<longleftrightarrow> frontierAt g up p xs \<and> frontierAt g up p ys"
  by (auto simp: frontierAt_def)

lemma toggleMap_simps:
  "id_n (toggleMap i b S U n) = id_n n"
  "level (toggleMap i b S U n) = level n"
  "(toggleMap i b S U n)\<lparr>selected := v\<rparr> = n\<lparr>selected := v\<rparr>"
  "id_n n = i \<Longrightarrow> toggleMap i b S U n = n\<lparr>selected := Some b\<rparr>"
  by (simp_all add: toggleMap_def)

lemma nodesChanged_fields:
  "nodes (nodesChanged g) = nodes g"
  "edges (nodesChanged g) = edges g"
  "uniqueKeys (nodesChanged g) = uniqueKeys g"
  "idGenerator (nodesChanged g) = idGenerator g"
  "parentsMemo (nodesChanged g) = None"
  "childrenMemo (nodesChanged g) = None"
  "nodesChanged (nodesChanged g) = nodesChanged g"
  "nodesChanged (g\<lparr>nodes := ns\<rparr>) = (nodesChanged g)\<lparr>nodes := ns\<rparr>"
  by (simp_all add: nodesChanged_def)

lemma setNodeAttrs_selectedPatch:
  "setNodeAttrs g i (selectedPatch b) =
     nodesChanged (g\<lparr>nodes := map (\<lambda>n. if id_n n = i then n\<lparr>selected := Some b\<rparr> else n) (nodes g)\<rparr>)"
  by (simp add: setNodeAttrs_def mergeAttrs_selectedPatch cong: if_cong)

lemma forEachSetSelected_map_Some:
  "forEachSetSelected b (map Some ns) g =
     (Inr (), if ns = [] then g
              else nodesChanged
                (g\<lparr>nodes := map (\<lambda>n. if id_n n \<in> id_n ` set ns then n\<lparr>selected := Some b\<rparr> else n)
                            (nodes g)\<rparr>))"
proof (induction ns arbitrary: g)
  case Nil
  then show ?case by simp
next
  case (Cons a ns)
  show ?case
    by (simp add: Cons.IH setNodeAttrs_selectedPatch comp_def nodesChanged_def)
qed

lemma forEachSetSelected_ids:
  "forEachSetSelected b xs g = (r, g') \<Longrightarrow>
     map id_n (nodes g') = map id_n (nodes g) \<and> idGenerator g' = idGenerator g
     \<and> edges g' = edges g \<and> uniqueKeys g' = uniqueKeys g"
proof (induction b xs g rule: forEachSetSelected.induct)
  case (3 b n ns g)
  have "map id_n (nodes (setNodeAttrs g (id_n n) (selectedPatch b))) = map id_n (nodes g)"
    by (simp add: setNodeAttrs_selectedPatch comp_def nodesChanged_def)
  then show ?case using 3 by (simp add: setNodeAttrs_selectedPatch nodesChanged_def)
qed auto

text \<open>A frontier that was expanded without an exception holds no \<open>undefined\<close>.\<close>

lemma reduceE_expand_defined:
  "reduceE (expandIn idx stopAtLevel) cur acc = Inr new \<Longrightarrow> None \<notin> set cur"
  by (induction cur arbitrary: acc) (auto simp: expandIn_def split: sum.splits option.splits if_splits)

lemma loopIn_defined:
  assumes "loopIn idx stopAtLevel ex cur = Some y"
  shows "\<forall>ex0 r. ex = ex0 @ cur \<longrightarrow> y = Inr r \<longrightarrow> None \<notin> set ex0 \<longrightarrow> None \<notin> set r"
proof (induct rule: loopIn.raw_induct [OF _ assms])
  case (1 loop idx stopAtLevel ex cur y)
  show ?case
  proof (intro allI impI)
    fix ex0 r
    assume ex: "ex = ex0 @ cur" and y: "y = Inr r" and ex0: "None \<notin> set ex0"
    show "None \<notin> set r"
    proof (cases "cur = []")
      case True
      then show ?thesis using 1(2) ex y ex0 by simp
    next
      case False
      then obtain new where new: "reduceE (expandIn idx stopAtLevel) cur [] = Inr new"
        and rec: "loop idx stopAtLevel (ex @ new) new = Some y"
        using 1(2) y by (auto split: sum.splits)
      have "None \<notin> set (ex0 @ cur)"
        using ex0 reduceE_expand_defined [OF new] by simp
      then show ?thesis using 1(1) [OF rec, rule_format, of "ex0 @ cur" r] ex y by simp
    qed
  qed
qed

lemma getHierarchyNodes_defined:
  assumes "getHierarchyNodes g (Some nd) up stopAtLevel = Some (Inr r, g')"
  shows "\<exists>ns. r = map Some ns"
proof -
  have "loopIn (map_of (indexOf up g)) stopAtLevel [Some nd] [Some nd] = Some (Inr r)"
    using getHierarchyNodes_loopIn [of g "Some nd" up stopAtLevel] assms by simp
  from loopIn_defined [OF this, rule_format, of "[]" r] have "None \<notin> set r"
    by simp
  then have "r = map Some (map the r)"
    by (induction r) auto
  then show ?thesis ..
qed

lemma applySelection_map_Some:
  "applySelection g nd (map Some un) (map Some sn) =
     (Inr (), nodesChanged
        (g\<lparr>nodes := map (\<lambda>n. if id_n n = id_n nd then n\<lparr>selected := Some (\<not> truthy (selected nd))\<rparr>
                         else if id_n n \<in> id_n ` set sn then n\<lparr>selected := Some True\<rparr>
                         else if id_n n \<in> id_n ` set un then n\<lparr>selected := Some False\<rparr>
                         else n) (nodes g)\<rparr>))"
  by (simp add: applySelection_def forEachSetSelected_map_Some setNodeAttrs_selectedPatch comp_def
      nodesChanged_def)

lemma getHierarchyNodes_state3:
  assumes "getHierarchyNodes g n up stopAtLevel = Some (r, g')"
  shows "g' = g \<or> g' = afterRead True g \<or> g' = afterRead False g"
  using getHierarchyNodes_state [OF assms] by (cases up) auto

lemma toggleSets_shape:
  assumes "toggleSets g nd = Some (Inr (us, ss), g')"
  shows "\<exists>un sn. us = map Some un \<and> ss = map Some sn
           \<and> (g' = g \<or> g' = afterRead True g \<or> g' = afterRead False g)"
proof (cases "truthy (selected nd)")
  case True
  show ?thesis
  proof (cases "level nd = 0")
    case z: True
    with True assms have "us = map Some (nodes g)" "ss = map Some []" "g' = g"
      by (auto simp: toggleSets_def Let_def)
    then show ?thesis by blast
  next
    case nz: False
    with True assms obtain hs where
      hs: "getHierarchyNodes g (Some nd) (getIsUpstream nd) 0 = Some (Inr hs, g')"
      and "us = hs" "ss = map Some []"
      by (auto simp: toggleSets_def Let_def split: option.splits sum.splits)
    then show ?thesis
      using getHierarchyNodes_defined [OF hs] getHierarchyNodes_state3 [OF hs] by blast
  qed
next
  case False
  with assms obtain hs where
    hs: "getHierarchyNodes g (Some nd) (\<not> getIsUpstream nd) 0 = Some (Inr hs, g')" and "ss = hs"
      "us = map Some (if getIsUpstream nd then upstreamNodes g else downstreamNodes g)"
    by (auto simp: toggleSets_def Let_def split: option.splits sum.splits)
  then show ?thesis
    using getHierarchyNodes_defined [OF hs] getHierarchyNodes_state3 [OF hs] by blast
qed

lemma toggle_Inr_nodes:
  assumes "nodesById g i = Some nd" and "toggle g i = Some (r, g')" and "r = Inr ()"
  shows "\<exists>U S. g' = nodesChanged
           (g\<lparr>nodes := map (\<lambda>n. if id_n n = i then n\<lparr>selected := Some (\<not> truthy (selected nd))\<rparr>
                                else if id_n n \<in> S then n\<lparr>selected := Some True\<rparr>
                                else if id_n n \<in> U then n\<lparr>selected := Some False\<rparr>
                                else n) (nodes g)\<rparr>)"
proof -
  have i: "id_n nd = i" using assms(1) nodesById_SomeD by blast
  from assms obtain us ss g1 where sets: "toggleSets g nd = Some (Inr (us, ss), g1)"
    and app: "applySelection g1 nd us ss = (Inr (), g')"
    by (auto simp: toggle_def split: option.splits sum.splits prod.splits)
  from toggleSets_shape [OF sets] obtain un sn where l: "us = map Some un" "ss = map Some sn"
    and g1: "g1 = g \<or> g1 = afterRead True g \<or> g1 = afterRead False g"
    by blast
  from g1 have "nodesChanged g1 = nodesChanged g" "nodes g1 = nodes g"
    by (auto simp: nodesChanged_afterRead afterRead_fields)
  with app l have "g' = nodesChanged
           (g\<lparr>nodes := map (\<lambda>n. if id_n n = i then n\<lparr>selected := Some (\<not> truthy (selected nd))\<rparr>
                                else if id_n n \<in> id_n ` set sn then n\<lparr>selected := Some True\<rparr>
                                else if id_n n \<in> id_n ` set un then n\<lparr>selected := Some False\<rparr>
                                else n) (nodes g)\<rparr>)"
    by (simp add: applySelection_map_Some i nodesChanged_fields)
  then show ?thesis by blast
qed

lemma toggle_Inr_toggleMap:
  assumes "nodesById g i = Some nd" and "toggle g i = Some (Inr (), g')"
  shows "\<exists>U S. g' = nodesChanged
           (g\<lparr>nodes := map (toggleMap i (\<not> truthy (selected nd)) S U) (nodes g)\<rparr>)"
  using toggle_Inr_nodes [OF assms refl] unfolding toggleMap_def by blast

lemma nodesById_map:
  assumes "\<And>n. id_n (F n) = id_n n"
  shows "nodesById (nodesChanged (g\<lparr>nodes := map F (nodes g)\<rparr>)) j = map_option F (nodesById g j)"
  by (simp add: nodesById_def keyBy_map assms nodesChanged_def)

lemma levelled_map:
  assumes "\<And>n. id_n (F n) = id_n n" and "\<And>n. level (F n) = level n" and "levelled g"
  shows "levelled (nodesChanged (g\<lparr>nodes := map F (nodes g)\<rparr>))"
  unfolding levelled_def list_all_iff
proof
  fix e
  assume "e \<in> set (edges (nodesChanged (g\<lparr>nodes := map F (nodes g)\<rparr>)))"
  then have "e \<in> set (edges g)" by (simp add: nodesChanged_def)
  from levelledD [OF assms(3) this] obtain a b where
    "nodesById g (from_e e) = Some a" "nodesById g (to_e e) = Some b" "level a = level b + 1"
    by blast
  then show "case (nodesById (nodesChanged (g\<lparr>nodes := map F (nodes g)\<rparr>)) (from_e e),
                   nodesById (nodesChanged (g\<lparr>nodes := map F (nodes g)\<rparr>)) (to_e e)) of
               (Some a, Some b) \<Rightarrow> level a = level b + 1 | _ \<Rightarrow> False"
    by (simp add: nodesById_map [of F, OF assms(1)] assms(2))
qed

subsection \<open>Termination of the closure on level-consistent graphs\<close>

lemma getterOf_eq:
  "map_of (getterOf up g) i =
     (if i \<in> id_n ` set (nodes g)
      then Some (if up
                 then map (\<lambda>e. nodesById g (to_e e)) (filter (\<lambda>e. from_e e = i) (edges g))
                 else map (\<lambda>e. nodesById g (from_e e)) (filter (\<lambda>e. to_e e = i) (edges g)))
      else None)"
  by (simp add: getterOf_def parentsByNodeIdGetter_eq childrenByNodeIdGetter_eq)

lemma neighbours_frontier:
  assumes lev: "levelled g" and n: "nodesById g (id_n n) = Some n"
  shows "\<exists>ns. map_of (getterOf up g) (id_n n) = Some ns
           \<and> frontierAt g up (potential up n - 1) ns"
proof -
  have mem: "id_n n \<in> id_n ` set (nodes g)"
    using n nodesById_SomeD by blast
  show ?thesis
  proof (cases up)
    case True
    have "frontierAt g True (level n - 1)
            (map (\<lambda>e. nodesById g (to_e e)) (filter (\<lambda>e. from_e e = id_n n) (edges g)))"
      unfolding frontierAt_def
    proof
      fix x
      assume "x \<in> set (map (\<lambda>e. nodesById g (to_e e)) (filter (\<lambda>e. from_e e = id_n n) (edges g)))"
      then obtain e where e: "e \<in> set (edges g)" "from_e e = id_n n" "x = nodesById g (to_e e)"
        by auto
      from levelledD [OF lev e(1)] obtain a b where ab: "nodesById g (from_e e) = Some a"
        "nodesById g (to_e e) = Some b" "level a = level b + 1" by blast
      then have "a = n" using e(2) n by simp
      moreover have "id_n b = to_e e" using ab(2) nodesById_SomeD by blast
      ultimately show "\<exists>m. x = Some m \<and> nodesById g (id_n m) = Some m \<and> potential True m = level n - 1"
        using ab e(3) by (simp add: potential_def)
    qed
    then show ?thesis using True mem by (simp add: getterOf_eq potential_def)
  next
    case False
    have "frontierAt g False (- level n - 1)
            (map (\<lambda>e. nodesById g (from_e e)) (filter (\<lambda>e. to_e e = id_n n) (edges g)))"
      unfolding frontierAt_def
    proof
      fix x
      assume "x \<in> set (map (\<lambda>e. nodesById g (from_e e)) (filter (\<lambda>e. to_e e = id_n n) (edges g)))"
      then obtain e where e: "e \<in> set (edges g)" "to_e e = id_n n" "x = nodesById g (from_e e)"
        by auto
      from levelledD [OF lev e(1)] obtain a b where ab: "nodesById g (from_e e) = Some a"
        "nodesById g (to_e e) = Some b" "level a = level b + 1" by blast
      then have "b = n" using e(2) n by simp
      moreover have "id_n a = from_e e" using ab(1) nodesById_SomeD by blast
      ultimately show "\<exists>m. x = Some m \<and> nodesById g (id_n m) = Some m \<and> potential False m = - level n - 1"
        using ab e(3) by (simp add: potential_def)
    qed
    then show ?thesis using False mem by (simp add: getterOf_eq potential_def)
  qed
qed

lemma reduceE_expand_levelled:
  assumes lev: "levelled g"
  shows "frontierAt g up p cur \<Longrightarrow>
     \<exists>new. reduceE (expandIn (map_of (getterOf up g)) stopAtLevel) cur acc = Inr (acc @ new)
          \<and> frontierAt g up (p - 1) new"
proof (induction cur arbitrary: acc)
  case Nil
  then show ?case by (simp add: frontierAt_simps)
next
  case (Cons x cur)
  from Cons.prems obtain n where n: "x = Some n" "nodesById g (id_n n) = Some n" "potential up n = p"
    and rest: "frontierAt g up p cur"
    by (auto simp: frontierAt_def)
  show ?case
  proof (cases "level n = stopAtLevel")
    case True
    from Cons.IH [OF rest, of acc] show ?thesis using n True by (simp add: expandIn_def)
  next
    case False
    from neighbours_frontier [OF lev n(2), of up] obtain ns where
      ns: "map_of (getterOf up g) (id_n n) = Some ns" "frontierAt g up (p - 1) ns"
      using n(3) by auto
    from Cons.IH [OF rest, of "acc @ ns"] obtain new where
      new: "reduceE (expandIn (map_of (getterOf up g)) stopAtLevel) cur (acc @ ns)
              = Inr ((acc @ ns) @ new)"
        "frontierAt g up (p - 1) new" by blast
    have "reduceE (expandIn (map_of (getterOf up g)) stopAtLevel) (x # cur) acc
            = Inr (acc @ (ns @ new))"
      using n(1) False ns(1) new(1) by (simp add: expandIn_def)
    moreover have "frontierAt g up (p - 1) (ns @ new)"
      using ns(2) new(2) by (simp add: frontierAt_simps)
    ultimately show ?thesis by blast
  qed
qed

lemma loopIn_total:
  assumes lev: "levelled g" and fr: "frontierAt g up p cur"
  shows "\<exists>r. loopIn (map_of (getterOf up g)) stopAtLevel ex cur = Some (Inr r)"
proof -
  define B where "B = Min (potential up ` set (nodes g))"
  have bound: "B \<le> q" if "frontierAt g up q xs" "xs \<noteq> []" for q xs
  proof -
    from that obtain n where "nodesById g (id_n n) = Some n" "potential up n = q"
      by (cases xs) (auto simp: frontierAt_def)
    then have "q \<in> potential up ` set (nodes g)"
      using nodesById_SomeD by blast
    then show ?thesis unfolding B_def by simp
  qed
  have "\<forall>p cur ex. nat (p - B + 1) = k \<longrightarrow> frontierAt g up p cur \<longrightarrow>
          (\<exists>r. loopIn (map_of (getterOf up g)) stopAtLevel ex cur = Some (Inr r))" for k
  proof (induction k rule: less_induct)
    case (less k)
    show ?case
    proof (intro allI impI)
      fix p cur ex
      assume k: "nat (p - B + 1) = k" and f: "frontierAt g up p cur"
      show "\<exists>r. loopIn (map_of (getterOf up g)) stopAtLevel ex cur = Some (Inr r)"
      proof (cases cur)
        case Nil
        then show ?thesis by (simp add: loopIn_Nil)
      next
        case (Cons c cs)
        from reduceE_expand_levelled [OF lev f, of stopAtLevel "[]"] obtain new where
          new: "reduceE (expandIn (map_of (getterOf up g)) stopAtLevel) cur [] = Inr new"
            "frontierAt g up (p - 1) new"
          by auto
        have step: "loopIn (map_of (getterOf up g)) stopAtLevel ex cur
                      = loopIn (map_of (getterOf up g)) stopAtLevel (ex @ new) new"
          using new(1) unfolding Cons by (simp add: loopIn_Cons del: reduceE.simps)
        show ?thesis
        proof (cases "new = []")
          case True
          then show ?thesis using step by (simp add: loopIn_Nil)
        next
          case False
          have "B \<le> p - 1" using bound [OF new(2) False] .
          then have "nat (p - 1 - B + 1) < k" using k by linarith
          from less.IH [OF this, rule_format, OF refl new(2), of "ex @ new"] step
          show ?thesis by simp
        qed
      qed
    qed
  qed
  then show ?thesis using fr by blast
qed

text \<open>Dropping edges keeps a graph level-consistent.\<close>

lemma levelled_take: "levelled g \<Longrightarrow> levelled (g\<lparr>edges := take k (edges g)\<rparr>)"
  unfolding levelled_def list_all_iff
  by (auto simp: nodesById_def dest: in_set_takeD)

lemma memoAt_fresh:
  "parentsMemo g = None \<Longrightarrow> memoAt True g"
  "childrenMemo g = None \<Longrightarrow> memoAt False g"
  unfolding memoAt_def list_ex_iff
  by (rule bexI [of _ "length (edges g)"]; simp add: indexOf_def getterOf_def)+

lemma memoOk_fresh: "parentsMemo g = None \<Longrightarrow> childrenMemo g = None \<Longrightarrow> memoOk g"
  by (simp add: memoOk_def memoAt_fresh)

lemma getHierarchyNodes_total:
  assumes "levelled g" and "memoAt up g" and "nodesById g i = Some nd"
  shows "\<exists>ns g'. getHierarchyNodes g (Some nd) up stopAtLevel = Some (Inr (map Some ns), g')"
proof -
  from assms(2) obtain k where k: "indexOf up g = getterOf up (g\<lparr>edges := take k (edges g)\<rparr>)"
    unfolding memoAt_def list_ex_iff by blast
  let ?g0 = "g\<lparr>edges := take k (edges g)\<rparr>"
  have nb: "nodesById ?g0 = nodesById g" by (simp add: nodesById_def)
  have "id_n nd = i" using assms(3) nodesById_SomeD by blast
  then have "frontierAt ?g0 up (potential up nd) [Some nd]"
    using assms(3) nb by (simp add: frontierAt_def)
  from loopIn_total [OF levelled_take [OF assms(1)] this, of stopAtLevel "[Some nd]"]
  obtain r where "loopIn (map_of (indexOf up g)) stopAtLevel [Some nd] [Some nd] = Some (Inr r)"
    unfolding k by blast
  from loopIn_hierarchyLoop [OF this, rule_format, OF refl] obtain g' where
    r: "getHierarchyNodes g (Some nd) up stopAtLevel = Some (Inr r, g')"
    by (auto simp: getHierarchyNodes_def)
  with getHierarchyNodes_defined [OF r] show ?thesis by blast
qed

lemma toggle_total:
  assumes "levelled g" and "memoOk g" and "nodesById g i = Some nd"
  shows "\<exists>g1. toggle g i = Some (Inr (), g1)"
proof -
  have m: "memoAt (getIsUpstream nd) g" "memoAt (\<not> getIsUpstream nd) g"
    using assms(2) by (cases "getIsUpstream nd"; simp add: memoOk_def)+
  obtain un gu where un: "getHierarchyNodes g (Some nd) (getIsUpstream nd) 0 = Some (Inr (map Some un), gu)"
    using getHierarchyNodes_total [OF assms(1) m(1) assms(3)] by blast
  obtain sn gs where sn: "getHierarchyNodes g (Some nd) (\<not> getIsUpstream nd) 0 = Some (Inr (map Some sn), gs)"
    using getHierarchyNodes_total [OF assms(1) m(2) assms(3)] by blast
  have "\<exists>us ss g'. toggleSets g nd = Some (Inr (map Some us, map Some ss), g')"
  proof (cases "truthy (selected nd)")
    case True
    show ?thesis
    proof (cases "level nd = 0")
      case z: True
      have "toggleSets g nd = Some (Inr (map Some (nodes g), map Some []), g)"
        using True z by (simp add: toggleSets_def Let_def)
      then show ?thesis by blast
    next
      case False
      have "toggleSets g nd = Some (Inr (map Some un, map Some []), gu)"
        using True False un by (simp add: toggleSets_def Let_def)
      then show ?thesis by blast
    qed
  next
    case False
    have "toggleSets g nd = Some (Inr (map Some (if getIsUpstream nd then upstreamNodes g
            else downstreamNodes g), map Some sn), gs)"
      using False sn by (simp add: toggleSets_def Let_def)
    then show ?thesis by blast
  qed
  then obtain us ss g' where "toggleSets g nd = Some (Inr (map Some us, map Some ss), g')" by blast
  then show ?thesis
    using assms(3) by (simp add: toggle_def applySelection_map_Some)
qed

subsection \<open>\<open>findNode\<close> and the ids\<close>

lemma uniqueIndexes_eq:
  "uniqueIndexes g k =
     (if k \<in> set (uniqueKeys g)
      then Some (keyBy (nodes g) (\<lambda>n. toStr (getPayloadField n k))) else None)"
  unfolding uniqueIndexes_def
  by (rule fold_upd_key [where k = "\<lambda>x. x"
        and F = "\<lambda>k. keyBy (nodes g) (\<lambda>n. toStr (getPayloadField n k))", THEN trans]) simp

lemma reduceE_findNodeStep_found:
  "set ks \<subseteq> set (uniqueKeys g) \<Longrightarrow> reduceE (findNodeStep g p) ks (Some n) = Inr (Some n)"
  by (induction ks) (simp_all add: findNodeStep_def)

lemma reduceE_findNodeStep_total:
  "set ks \<subseteq> set (uniqueKeys g) \<Longrightarrow> \<exists>r. reduceE (findNodeStep g p) ks acc = Inr r"
  by (induction ks arbitrary: acc)
    (auto simp: findNodeStep_def uniqueIndexes_eq split: option.splits)

lemma findNode_total: "\<exists>r. findNode g p = Inr r"
  unfolding findNode_def by (rule reduceE_findNodeStep_total) simp

lemma id_n_if_selected: "id_n (if c then n\<lparr>selected := v\<rparr> else n) = id_n n"
  by simp

lemma addEdge_fields:
  "nodes (addEdge g a b) = nodes g"
  "idGenerator (addEdge g a b) = idGenerator g"
  "uniqueKeys (addEdge g a b) = uniqueKeys g"
  "parentsMemo (addEdge g a b) = parentsMemo g"
  "childrenMemo (addEdge g a b) = childrenMemo g"
  by (simp_all add: addEdge_def Let_def)

lemma idGenerator_setNodeAttrs: "idGenerator (setNodeAttrs g i a) = idGenerator g"
  by (simp add: setNodeAttrs_def nodesChanged_def)

lemma addNode_ids:
  assumes "addNode g p parentNode upstream = (r, g')"
  shows "idGenerator g \<le> idGenerator g'
     \<and> map id_n (nodes g') = map id_n (nodes g) @ [idGenerator g .. idGenerator g' - 1]"
proof -
  obtain found where f: "findNode g p = Inr found"
    using findNode_total by blast
  show ?thesis
    using assms f
    by (cases found; cases parentNode)
      (auto simp: addNode_def Let_def addEdge_fields nodesChanged_def)
qed

lemma map_id_n_setNodeAttrs:
  "id_a a = None \<Longrightarrow> map id_n (nodes (setNodeAttrs g i a)) = map id_n (nodes g)"
  by (simp add: setNodeAttrs_def mergeAttrs_def comp_def nodesChanged_def)

lemma applySelection_ids:
  assumes "applySelection g nd us ss = (r, g')"
  shows "map id_n (nodes g') = map id_n (nodes g) \<and> idGenerator g' = idGenerator g"
proof -
  obtain r1 g1 where 1: "forEachSetSelected False us g = (r1, g1)"
    by (cases "forEachSetSelected False us g")
  obtain r2 g2 where 2: "forEachSetSelected True ss g1 = (r2, g2)"
    by (cases "forEachSetSelected True ss g1")
  note i1 = forEachSetSelected_ids [OF 1] and i2 = forEachSetSelected_ids [OF 2]
  show ?thesis
    using assms 1 2 i1 i2
    by (auto simp: applySelection_def setNodeAttrs_selectedPatch comp_def id_n_if_selected
        nodesChanged_def split: sum.splits)
qed

lemma toggleSets_state:
  assumes "toggleSets g nd = Some (r, g')"
  shows "g' = g \<or> g' = afterRead True g \<or> g' = afterRead False g"
  using assms getHierarchyNodes_state3 [of g "Some nd" _ 0]
  by (auto simp: toggleSets_def Let_def split: if_splits option.splits sum.splits prod.splits)

lemma toggle_ids:
  assumes "toggle g i = Some (r, g')"
  shows "map id_n (nodes g') = map id_n (nodes g) \<and> idGenerator g' = idGenerator g"
proof (cases "nodesById g i")
  case None
  then show ?thesis using assms by (simp add: toggle_def)
next
  case (Some nd)
  from assms Some obtain rs g1 where ts: "toggleSets g nd = Some (rs, g1)"
    by (auto simp: toggle_def split: option.splits)
  from toggleSets_state [OF ts] have f: "nodes g1 = nodes g" "idGenerator g1 = idGenerator g"
    by (auto simp: afterRead_fields)
  show ?thesis
  proof (cases rs)
    case (Inl e)
    then show ?thesis using assms Some ts f by (simp add: toggle_def)
  next
    case (Inr p)
    obtain us ss where p: "p = (us, ss)" by (cases p)
    then have "applySelection g1 nd us ss = (r, g')"
      using assms Some ts Inr by (simp add: toggle_def)
    from applySelection_ids [OF this] f show ?thesis by simp
  qed
qed

lemma applyOp_ids:
  assumes "keepsId c" and "applyOp g c = Some g'"
  shows "idGenerator g \<le> idGenerator g'
     \<and> map id_n (nodes g') = map id_n (nodes g) @ [idGenerator g .. idGenerator g' - 1]"
proof (cases c)
  case (AddNode p parentNode upstream)
  then show ?thesis
    using assms(2) addNode_ids [of g p parentNode upstream "fst (addNode g p parentNode upstream)" g']
    by auto
next
  case (AddEdge a b)
  then show ?thesis using assms(2) by (auto simp: addEdge_fields)
next
  case (SetNodeAttrs i a)
  then show ?thesis using assms by (auto simp: map_id_n_setNodeAttrs idGenerator_setNodeAttrs)
next
  case (Toggle i)
  then show ?thesis using assms(2) toggle_ids [of g i] by auto
next
  case (GetHierarchyNodes n up stopAtLevel)
  then obtain r where "getHierarchyNodes g (Some n) up stopAtLevel = Some (r, g')"
    using assms(2) by auto
  from getHierarchyNodes_state [OF this] show ?thesis by (auto simp: afterRead_fields)
qed

lemma run_ids:
  "list_all keepsId cs \<Longrightarrow> run g cs = Some g' \<Longrightarrow>
     idGenerator g \<le> idGenerator g'
     \<and> map id_n (nodes g') = map id_n (nodes g) @ [idGenerator g .. idGenerator g' - 1]"
proof (induction cs arbitrary: g)
  case Nil
  then show ?case by simp
next
  case (Cons c cs)
  then obtain g1 where g1: "applyOp g c = Some g1" and rest: "run g1 cs = Some g'"
    by (auto split: option.splits)
  from Cons.prems(1) have k: "keepsId c" "list_all keepsId cs" by simp_all
  note a = applyOp_ids [OF k(1) g1] and b = Cons.IH [OF k(2) rest]
  have "[idGenerator g .. idGenerator g' - 1] =
        [idGenerator g .. idGenerator g1 - 1] @ [idGenerator g1 .. idGenerator g' - 1]"
  proof (cases "idGenerator g1 = idGenerator g'")
    case True
    then show ?thesis by simp
  next
    case False
    then show ?thesis using a b by (intro upto_split1) auto
  qed
  then show ?case using a b by simp
qed

text \<open>Every graph built from a fresh one by calls that patch no id has unique node ids.\<close>

lemma run_distinct_ids:
  assumes "list_all keepsId cs" and "run newGraphDb cs = Some g"
  shows "distinct (map id_n (nodes g))"
  using run_ids [OF assms] by (simp add: newGraphDb_def)

subsection \<open>A kept index is at worst out of date\<close>

lemma getterOf_cong:
  "nodes g' = nodes g \<Longrightarrow> edges g' = edges g \<Longrightarrow> getterOf up g' = getterOf up g"
  by (simp add: getterOf_def parentsByNodeIdGetter_def childrenByNodeIdGetter_def
      nodesById_def edgesByFrom_def edgesByTo_def)

lemma getter_memo_upd:
  "parentsByNodeIdGetter (g\<lparr>parentsMemo := x\<rparr>) = parentsByNodeIdGetter g"
  "parentsByNodeIdGetter (g\<lparr>childrenMemo := x\<rparr>) = parentsByNodeIdGetter g"
  "childrenByNodeIdGetter (g\<lparr>parentsMemo := x\<rparr>) = childrenByNodeIdGetter g"
  "childrenByNodeIdGetter (g\<lparr>childrenMemo := x\<rparr>) = childrenByNodeIdGetter g"
  by (simp_all add: parentsByNodeIdGetter_def childrenByNodeIdGetter_def
      nodesById_def edgesByFrom_def edgesByTo_def)

lemma indexOf_afterRead_any: "indexOf up (afterRead up' g) = indexOf up g"
  by (cases up; cases up')
    (simp_all add: indexOf_def afterRead_def getter_memo_upd split: option.splits)

lemma memoAt_afterRead: "memoAt up (afterRead up' g) = memoAt up g"
proof -
  have "getterOf up ((afterRead up' g)\<lparr>edges := take k (edges (afterRead up' g))\<rparr>)
          = getterOf up (g\<lparr>edges := take k (edges g)\<rparr>)" for k
    by (rule getterOf_cong) (simp_all add: afterRead_fields)
  then show ?thesis
    by (simp add: memoAt_def indexOf_afterRead_any afterRead_fields)
qed

lemma memoOk_afterRead: "memoOk (afterRead up g) = memoOk g"
  by (simp add: memoOk_def memoAt_afterRead)

lemma memoOk_nodesChanged: "memoOk (nodesChanged g)"
  by (rule memoOk_fresh) (simp_all add: nodesChanged_def)

lemma memoAt_None:
  "(if up then parentsMemo g else childrenMemo g) = None \<Longrightarrow> memoAt up g"
  by (cases up) (simp_all add: memoAt_fresh)

lemma memoAt_append_edge:
  assumes "memoAt up g"
  shows "memoAt up (g\<lparr>edges := edges g @ [e]\<rparr>)"
proof (cases "if up then parentsMemo g else childrenMemo g")
  case None
  show ?thesis
    by (rule memoAt_None) (use None in \<open>simp split: if_splits\<close>)
next
  case (Some v)
  then have same: "indexOf up (g\<lparr>edges := edges g @ [e]\<rparr>) = indexOf up g"
    by (cases up) (simp_all add: indexOf_def)
  from assms obtain k where "k \<in> set [0..<Suc (length (edges g))]"
    "indexOf up g = getterOf up (g\<lparr>edges := take k (edges g)\<rparr>)"
    unfolding memoAt_def list_ex_iff by blast
  then have k: "k \<le> length (edges g)"
    "indexOf up g = getterOf up (g\<lparr>edges := take k (edges g)\<rparr>)"
    by auto
  have "getterOf up ((g\<lparr>edges := edges g @ [e]\<rparr>)\<lparr>edges := take k (edges (g\<lparr>edges := edges g @ [e]\<rparr>))\<rparr>)
          = getterOf up (g\<lparr>edges := take k (edges g)\<rparr>)"
    by (rule getterOf_cong) (simp_all add: k(1))
  then have "indexOf up (g\<lparr>edges := edges g @ [e]\<rparr>)
          = getterOf up ((g\<lparr>edges := edges g @ [e]\<rparr>)\<lparr>edges := take k (edges (g\<lparr>edges := edges g @ [e]\<rparr>))\<rparr>)"
    using same k(2) by simp
  moreover have "k \<in> set [0..<Suc (length (edges (g\<lparr>edges := edges g @ [e]\<rparr>)))]"
    using k(1) by auto
  ultimately show ?thesis unfolding memoAt_def list_ex_iff by blast
qed

lemma memoOk_addEdge: "memoOk g \<Longrightarrow> memoOk (addEdge g a b)"
  by (simp add: memoOk_def addEdge_def Let_def memoAt_append_edge)

lemma memoOk_setNodeAttrs: "memoOk (setNodeAttrs g i a)"
  unfolding setNodeAttrs_def by (rule memoOk_nodesChanged)

lemma memoOk_addNode:
  assumes "memoOk g"
  shows "memoOk (snd (addNode g p parentNode upstream))"
proof -
  obtain found where f: "findNode g p = Inr found"
    using findNode_total by blast
  show ?thesis
    using assms f
    by (cases found; cases parentNode)
      (auto simp: addNode_def Let_def memoOk_addEdge memoOk_nodesChanged)
qed

lemma memoOk_forEachSetSelected:
  "memoOk g \<Longrightarrow> memoOk (snd (forEachSetSelected b xs g))"
  by (induction b xs g rule: forEachSetSelected.induct) (simp_all add: memoOk_setNodeAttrs)

lemma memoOk_applySelection:
  assumes "memoOk g"
  shows "memoOk (snd (applySelection g nd us ss))"
proof -
  obtain r1 g1 where 1: "forEachSetSelected False us g = (r1, g1)"
    by (cases "forEachSetSelected False us g")
  obtain r2 g2 where 2: "forEachSetSelected True ss g1 = (r2, g2)"
    by (cases "forEachSetSelected True ss g1")
  have "memoOk g1" using memoOk_forEachSetSelected [OF assms, of False us] 1 by simp
  then have "memoOk g2" using memoOk_forEachSetSelected [of g1 True ss] 2 by simp
  then show ?thesis
    using 1 2 \<open>memoOk g1\<close>
    by (auto simp: applySelection_def memoOk_setNodeAttrs split: sum.splits)
qed

lemma memoOk_toggle:
  assumes "memoOk g" and "toggle g i = Some (r, g')"
  shows "memoOk g'"
proof (cases "nodesById g i")
  case None
  then show ?thesis using assms by (simp add: toggle_def)
next
  case (Some nd)
  from assms Some obtain rs g1 where ts: "toggleSets g nd = Some (rs, g1)"
    by (auto simp: toggle_def split: option.splits)
  from toggleSets_state [OF ts] have g1: "memoOk g1"
    using assms(1) by (auto simp: memoOk_afterRead)
  show ?thesis
  proof (cases rs)
    case (Inl e)
    then show ?thesis using assms Some ts g1 by (simp add: toggle_def)
  next
    case (Inr p)
    obtain us ss where p: "p = (us, ss)" by (cases p)
    then have "applySelection g1 nd us ss = (r, g')"
      using assms Some ts Inr by (simp add: toggle_def)
    with memoOk_applySelection [OF g1, of nd us ss] show ?thesis by simp
  qed
qed

lemma memoOk_applyOp:
  assumes "memoOk g" and "applyOp g c = Some g'"
  shows "memoOk g'"
proof (cases c)
  case (AddNode p parentNode upstream)
  then show ?thesis using assms memoOk_addNode [of g p parentNode upstream] by auto
next
  case (AddEdge a b)
  then show ?thesis using assms by (auto simp: memoOk_addEdge)
next
  case (SetNodeAttrs i a)
  then show ?thesis using assms by (auto simp: memoOk_setNodeAttrs)
next
  case (Toggle i)
  then show ?thesis using assms memoOk_toggle [of g i] by auto
next
  case (GetHierarchyNodes n up stopAtLevel)
  then obtain r where "getHierarchyNodes g (Some n) up stopAtLevel = Some (r, g')"
    using assms(2) by auto
  from getHierarchyNodes_state [OF this] show ?thesis
    using assms(1) by (auto simp: memoOk_afterRead)
qed

text \<open>In every state reached from a fresh graph, a kept index is what its getter yields on
  the current nodes and an initial part of the current edges.\<close>

lemma run_memoOk: "memoOk g \<Longrightarrow> run g cs = Some g' \<Longrightarrow> memoOk g'"
proof (induction cs arbitrary: g)
  case Nil
  then show ?case by simp
next
  case (Cons c cs)
  then obtain g1 where g1: "applyOp g c = Some g1" and rest: "run g1 cs = Some g'"
    by (auto split: option.splits)
  from Cons.IH [OF memoOk_applyOp [OF Cons.prems(1) g1] rest] show ?case .
qed

lemma memoOk_newGraphDb: "memoOk (newGraphDb\<lparr>uniqueKeys := ks\<rparr>)"
  by (rule memoOk_fresh) (simp_all add: newGraphDb_def)

subsection \<open>The example graphs are built by the operations\<close>

lemma fixture_built:
  "run (newGraphDb\<lparr>uniqueKeys := [''urn'']\<rparr>)
     [AddNode (urn ''A'') None None, AddNode (urn ''B'') (Some nodeA) (Some True),
      AddNode (urn ''C'') (Some nodeA) (Some False)] = Some fixture"
  by code_simp

lemma diamond_built:
  "run (newGraphDb\<lparr>uniqueKeys := [''urn'']\<rparr>)
     [AddNode (urn ''A'') None None, AddNode (urn ''P'') (Some nodeA) None,
      AddNode (urn ''Q'') (Some nodeA) None, AddNode (urn ''D'') (Some nodeP) None,
      AddNode (urn ''D'') (Some nodeQ) None] = Some diamond"
  by code_simp

lemma selfLoop_built:
  "run (newGraphDb\<lparr>uniqueKeys := [''urn'']\<rparr>)
     [AddNode (urn ''A'') None None, AddNode (urn ''C'') (Some nodeA) None,
      AddNode (urn ''C'') (Some nodeC2) None] = Some selfLoop"
  by code_simp

lemma dangling_built:
  "run (newGraphDb\<lparr>uniqueKeys := [''urn'']\<rparr>)
     [AddNode (urn ''A'') None None, AddNode (urn ''C'') (Some nodeA) None,
      AddEdge ghost nodeC2] = Some dangling"
  by code_simp

lemma lateParent_built:
  "run (newGraphDb\<lparr>uniqueKeys := [''urn'']\<rparr>) lateParentCalls = Some lateParent"
  by code_simp

subsection \<open>A closure that does not return\<close>

text \<open>On the graph with the edge 2 \<rightarrow> 2 the frontier \<open>[A, C]\<close> reproduces itself, so the
  closure of \<open>C\<close> towards the root never ends, and neither does \<open>toggle(2)\<close>.\<close>

lemma selfLoop_index: "indexOf True selfLoop = [(1, []), (2, [Some nodeA, Some nodeC2])]"
  by code_simp

lemma selfLoop_expand:
  "reduceE (expandIn (map_of (indexOf True selfLoop)) 0) [Some nodeC2] [] = Inr [Some nodeA, Some nodeC2]"
  "reduceE (expandIn (map_of (indexOf True selfLoop)) 0) [Some nodeA, Some nodeC2] []
     = Inr [Some nodeA, Some nodeC2]"
  unfolding selfLoop_index by (simp_all add: expandIn_def example_defs)

lemma selfLoop_frontier_diverges:
  assumes "loopIn idx stopAtLevel ex cur = Some y"
  shows "\<not> (idx = map_of (indexOf True selfLoop) \<and> stopAtLevel = 0
            \<and> cur = [Some nodeA, Some nodeC2])"
proof (induct rule: loopIn.raw_induct [OF _ assms])
  case (1 loop idx stopAtLevel ex cur y)
  show ?case
  proof
    assume a: "idx = map_of (indexOf True selfLoop) \<and> stopAtLevel = 0
                \<and> cur = [Some nodeA, Some nodeC2]"
    then have "loop (map_of (indexOf True selfLoop)) 0 (ex @ [Some nodeA, Some nodeC2])
                 [Some nodeA, Some nodeC2] = Some y"
      using 1(2) selfLoop_expand(2) by (simp del: reduceE.simps)
    from 1(1) [OF this] show False by simp
  qed
qed

lemma selfLoop_closure_diverges: "getHierarchyNodes selfLoop (Some nodeC2) True 0 = None"
proof -
  have "loopIn (map_of (indexOf True selfLoop)) 0 [Some nodeC2] [Some nodeC2] = None"
  proof (cases "loopIn (map_of (indexOf True selfLoop)) 0 [Some nodeC2] [Some nodeC2]")
    case None
    then show ?thesis .
  next
    case (Some y)
    then have "loopIn (map_of (indexOf True selfLoop)) 0 ([Some nodeC2] @ [Some nodeA, Some nodeC2])
                 [Some nodeA, Some nodeC2] = Some y"
      using selfLoop_expand(1) by (simp add: loopIn_Cons del: reduceE.simps)
    from selfLoop_frontier_diverges [OF this] show ?thesis by simp
  qed
  then show ?thesis
    using getHierarchyNodes_loopIn [of selfLoop "Some nodeC2" True 0] by simp
qed

lemma selfLoop_toggle_diverges: "toggle selfLoop 2 = None"
proof -
  have "nodesById selfLoop 2 = Some nodeC2"
    by (simp add: nodesById_def keyBy_def example_defs)
  moreover have "toggleSets selfLoop nodeC2 = None"
    using selfLoop_closure_diverges
    by (simp add: toggleSets_def getIsUpstream_def nodeC2_def)
  ultimately show ?thesis by (simp add: toggle_def)
qed

subsection \<open>The closure, round by round\<close>

text \<open>
  When no parent index is kept, the closure of a
  level-1 node \<open>C\<close> whose only parent edge leads to the level-0 node \<open>A\<close> is \<open>[C, A]\<close>,
  whatever else the graph holds. In every state, one round of the loop expands exactly
  the frontier nodes that are not at the stop level, each into its entry of the index that
  the read yields, and the result begins with everything explored so far: a node at the
  stop level is in the result and is not expanded, also in a frontier that holds other
  nodes.
\<close>

lemma getHierarchyNodes_child_of_root_fresh:
  assumes "nodesById g (id_n A) = Some A" and "level A = 0"
    and "nodesById g (id_n C) = Some C" and "level C = 1"
    and "filter (\<lambda>e. from_e e = id_n C) (edges g) = [\<lparr>from_e = id_n C, to_e = id_n A\<rparr>]"
    and "parentsMemo g = None"
  shows "map_option fst (getHierarchyNodes g (Some C) True 0) = Some (Inr [Some C, Some A])"
proof -
  have "id_n C \<in> id_n ` set (nodes g)"
    using assms(3) nodesById_SomeD by blast
  then have "map_of (indexOf True g) (id_n C) = Some [Some A]"
    using assms(1,5,6) by (simp add: indexOf_def parentsByNodeIdGetter_eq)
  then show ?thesis
    using assms(2,4)
    by (simp add: getHierarchyNodes_loopIn loopIn_Cons loopIn_Nil expandIn_def)
qed

lemma reduceE_expand_skips_stop:
  "reduceE (expandIn idx stopAtLevel) cur acc =
     reduceE (expandIn idx stopAtLevel) (filter (\<lambda>x. \<forall>nd. x = Some nd \<longrightarrow> level nd \<noteq> stopAtLevel) cur) acc"
proof (induction cur arbitrary: acc)
  case Nil
  then show ?case by simp
next
  case (Cons x cur)
  show ?case
  proof (cases "\<forall>nd. x = Some nd \<longrightarrow> level nd \<noteq> stopAtLevel")
    case True
    then show ?thesis using Cons.IH by (simp split: sum.splits)
  next
    case False
    then have "expandIn idx stopAtLevel acc x = Inr acc"
      by (auto simp: expandIn_def)
    then show ?thesis using False Cons.IH by simp
  qed
qed

lemma hierarchyLoop_result:
  "map_option fst (hierarchyLoop g up stopAtLevel ex cur) =
     loopIn (map_of (indexOf up g)) stopAtLevel ex cur"
proof (cases "loopIn (map_of (indexOf up g)) stopAtLevel ex cur")
  case None
  then show ?thesis
    using hierarchyLoop_loopIn [of g up stopAtLevel ex cur]
    by (cases "hierarchyLoop g up stopAtLevel ex cur") auto
next
  case (Some r)
  from loopIn_hierarchyLoop [OF Some, rule_format, OF refl] show ?thesis
    using Some by auto
qed

lemma hierarchyLoop_round:
  "map_option fst (hierarchyLoop g up stopAtLevel ex cur) =
     (if cur = [] then Some (Inr ex)
      else case reduceE (expandIn (map_of (indexOf up g)) stopAtLevel)
                  (filter (\<lambda>x. \<forall>nd. x = Some nd \<longrightarrow> level nd \<noteq> stopAtLevel) cur) [] of
             Inl e \<Rightarrow> Some (Inl e)
           | Inr new \<Rightarrow>
               map_option fst (hierarchyLoop (afterRead up g) up stopAtLevel (ex @ new) new))"
proof (cases cur)
  case Nil
  then show ?thesis by (simp add: hierarchyLoop_Nil)
next
  case (Cons c cs)
  show ?thesis
    unfolding hierarchyLoop_result indexOf_afterRead
    using reduceE_expand_skips_stop [of "map_of (indexOf up g)" stopAtLevel cur "[]"]
    unfolding Cons by (simp add: loopIn_Cons del: reduceE.simps)
qed

lemma loopIn_extends:
  assumes "loopIn idx stopAtLevel ex cur = Some y"
  shows "\<forall>r. y = Inr r \<longrightarrow> (\<exists>rest. r = ex @ rest)"
proof (induct rule: loopIn.raw_induct [OF _ assms])
  case (1 loop idx stopAtLevel ex cur y)
  show ?case
  proof (intro allI impI)
    fix r
    assume y: "y = Inr r"
    show "\<exists>rest. r = ex @ rest"
    proof (cases "cur = []")
      case True
      then show ?thesis using 1(2) y by simp
    next
      case False
      then obtain new where rec: "loop idx stopAtLevel (ex @ new) new = Some y"
        using 1(2) y by (auto split: sum.splits)
      from 1(1) [OF rec, rule_format, OF y] show ?thesis by auto
    qed
  qed
qed

lemma getHierarchyNodes_holds_seed:
  assumes "getHierarchyNodes g n up stopAtLevel = Some (Inr r, g')"
  shows "\<exists>rest. r = n # rest"
proof -
  have "loopIn (map_of (indexOf up g)) stopAtLevel [n] [n] = Some (Inr r)"
    using getHierarchyNodes_loopIn [of g n up stopAtLevel] assms by simp
  from loopIn_extends [OF this, rule_format, OF refl] show ?thesis by simp
qed

section \<open>The claims\<close>

subsection \<open>C1: \<open>toggle\<close> twice\<close>

text \<open>
  C1 as written fails. In the three-node graph with nothing selected, \<open>toggle(3)\<close> selects
  \<open>C\<close> and the chain to the root, that is \<open>A\<close>; the second \<open>toggle(3)\<close> unselects \<open>C\<close> and
  its descendants only, so \<open>A\<close> stays selected although it was not before.
\<close>

theorem toggle_twice_counterexample:
  "toggle fixture 3
     = Some (Inr (), fixture\<lparr>nodes := [nodeA\<lparr>selected := Some True\<rparr>, nodeB, nodeC\<lparr>selected := Some True\<rparr>]\<rparr>)
   \<and> toggle (fixture\<lparr>nodes := [nodeA\<lparr>selected := Some True\<rparr>, nodeB, nodeC\<lparr>selected := Some True\<rparr>]\<rparr>) 3
     = Some (Inr (), fixture\<lparr>nodes := [nodeA\<lparr>selected := Some True\<rparr>, nodeB, nodeC\<lparr>selected := Some False\<rparr>]\<rparr>)
   \<and> truthy (selected (nodes fixture ! 0)) = False
   \<and> truthy (selected ([nodeA\<lparr>selected := Some True\<rparr>, nodeB, nodeC\<lparr>selected := Some False\<rparr>] ! 0)) = True"
  by code_simp

text \<open>
  C1, amended: for every graph and every id present in it, if two successive \<open>toggle(id)\<close>
  calls both return, the toggled node is afterwards the node it was, with its \<open>selected\<close>
  flag back at the truth value it had before the first call (an undefined flag reads as
  false); no other field of any node, no edge, key or the id generator has changed. The
  flags of the other nodes need not be restored. On a level-consistent graph both calls
  do return, whether the parent and child indexes are kept or not, as long as a kept
  index is the getter's value on an initial part of the edges, which is so in every state
  reached by calls (on other graphs a call may run forever, as \<open>toggle(2)\<close> does on the
  graph with the edge 2 \<rightarrow> 2).
\<close>

theorem toggle_twice_restores_own_flag:
  assumes "nodesById g i = Some nd"
  shows "(toggle g i = Some (Inr (), g1) \<longrightarrow> toggle g1 i = Some (Inr (), g2) \<longrightarrow>
            nodesById g2 i = Some (nd\<lparr>selected := Some (truthy (selected nd))\<rparr>)
            \<and> map (\<lambda>n. n\<lparr>selected := None\<rparr>) (nodes g2) = map (\<lambda>n. n\<lparr>selected := None\<rparr>) (nodes g)
            \<and> edges g2 = edges g \<and> uniqueKeys g2 = uniqueKeys g \<and> idGenerator g2 = idGenerator g)
     \<and> (levelled g \<longrightarrow> memoOk g \<longrightarrow>
           (\<exists>h1 h2. toggle g i = Some (Inr (), h1) \<and> toggle h1 i = Some (Inr (), h2)))"
proof (intro conjI impI)
  assume t1: "toggle g i = Some (Inr (), g1)" and t2: "toggle g1 i = Some (Inr (), g2)"
  from toggle_Inr_toggleMap [OF assms t1] obtain U S where
    g1: "g1 = nodesChanged (g\<lparr>nodes := map (toggleMap i (\<not> truthy (selected nd)) S U) (nodes g)\<rparr>)"
    by blast
  have i: "id_n nd = i" using assms nodesById_SomeD by blast
  have n1: "nodesById g1 i = Some (nd\<lparr>selected := Some (\<not> truthy (selected nd))\<rparr>)"
    unfolding g1 by (simp add: nodesById_map toggleMap_simps assms i)
  from toggle_Inr_toggleMap [OF n1 t2] obtain U' S' where
    g2: "g2 = nodesChanged (g1\<lparr>nodes := map (toggleMap i (truthy (selected nd)) S' U') (nodes g1)\<rparr>)"
    by auto
  have i1: "id_n (nd\<lparr>selected := Some (\<not> truthy (selected nd))\<rparr>) = i" using i by simp
  show "nodesById g2 i = Some (nd\<lparr>selected := Some (truthy (selected nd))\<rparr>)"
    unfolding g2 by (simp add: nodesById_map toggleMap_simps n1 i1)
  show "map (\<lambda>n. n\<lparr>selected := None\<rparr>) (nodes g2) = map (\<lambda>n. n\<lparr>selected := None\<rparr>) (nodes g)"
    unfolding g2 g1 by (simp add: comp_def toggleMap_simps nodesChanged_def)
  show "edges g2 = edges g" "uniqueKeys g2 = uniqueKeys g" "idGenerator g2 = idGenerator g"
    unfolding g2 g1 by (simp_all add: nodesChanged_def)
next
  assume lev: "levelled g" and memo: "memoOk g"
  from toggle_total [OF lev memo assms] obtain h1 where t1: "toggle g i = Some (Inr (), h1)"
    by blast
  from toggle_Inr_toggleMap [OF assms t1] obtain U S where
    h1: "h1 = nodesChanged (g\<lparr>nodes := map (toggleMap i (\<not> truthy (selected nd)) S U) (nodes g)\<rparr>)"
    by blast
  have lev1: "levelled h1"
    unfolding h1 by (rule levelled_map) (simp_all add: toggleMap_simps lev)
  have memo1: "memoOk h1"
    unfolding h1 by (rule memoOk_nodesChanged)
  have "nodesById h1 i = map_option (toggleMap i (\<not> truthy (selected nd)) S U) (nodesById g i)"
    unfolding h1 by (rule nodesById_map) (simp add: toggleMap_simps)
  then obtain nd1 where "nodesById h1 i = Some nd1" using assms by simp
  from toggle_total [OF lev1 memo1 this] t1
  show "\<exists>h1 h2. toggle g i = Some (Inr (), h1) \<and> toggle h1 i = Some (Inr (), h2)" by blast
qed

theorem toggle_twice_restores_own_flag_witness:
  "nodesById fixture 3 = Some nodeC \<and> levelled fixture \<and> memoOk fixture
   \<and> toggle fixture 3
     = Some (Inr (), fixture\<lparr>nodes := [nodeA\<lparr>selected := Some True\<rparr>, nodeB, nodeC\<lparr>selected := Some True\<rparr>]\<rparr>)
   \<and> toggle (fixture\<lparr>nodes := [nodeA\<lparr>selected := Some True\<rparr>, nodeB, nodeC\<lparr>selected := Some True\<rparr>]\<rparr>) 3
     = Some (Inr (), fixture\<lparr>nodes := [nodeA\<lparr>selected := Some True\<rparr>, nodeB, nodeC\<lparr>selected := Some False\<rparr>]\<rparr>)
   \<and> nodesById (fixture\<lparr>nodes := [nodeA\<lparr>selected := Some True\<rparr>, nodeB, nodeC\<lparr>selected := Some False\<rparr>]\<rparr>) 3
     = Some (nodeC\<lparr>selected := Some (truthy (selected nodeC))\<rparr>)"
proof -
  let ?g1 = "fixture\<lparr>nodes := [nodeA\<lparr>selected := Some True\<rparr>, nodeB, nodeC\<lparr>selected := Some True\<rparr>]\<rparr>"
  let ?g2 = "fixture\<lparr>nodes := [nodeA\<lparr>selected := Some True\<rparr>, nodeB, nodeC\<lparr>selected := Some False\<rparr>]\<rparr>"
  have n: "nodesById fixture 3 = Some nodeC"
    by (simp add: nodesById_def keyBy_def example_defs)
  have l: "levelled fixture"
    by (simp add: levelled_def nodesById_def keyBy_def example_defs)
  have m: "memoOk fixture"
    by (rule memoOk_fresh) (simp_all add: fixture_def)
  have t1: "toggle fixture 3 = Some (Inr (), ?g1)" by code_simp
  have t2: "toggle ?g1 3 = Some (Inr (), ?g2)" by code_simp
  from toggle_twice_restores_own_flag [OF n, of ?g1 ?g2] n l m t1 t2 show ?thesis by blast
qed

subsection \<open>C2: \<open>minLevel\<close>\<close>




subsection \<open>C3: \<open>addNode\<close> twice with the same payload\<close>

text \<open>
  C3 as written fails when no unique key is configured, which is the default
  (\<open>uniqueKeys = []\<close>): \<open>findNode\<close> then finds nothing, and the second \<open>addNode\<close> of the
  same payload creates a second node with the next id.
\<close>

theorem addNode_no_keys_counterexample:
  "uniqueKeys newGraphDb = []
   \<and> addNode newGraphDb (urn ''A'') None None = (Inr nodeA, onceAdded)
   \<and> addNode onceAdded (urn ''A'') None None
       = (Inr (nodeA\<lparr>id_n := 2\<rparr>), onceAdded\<lparr>nodes := [nodeA, nodeA\<lparr>id_n := 2\<rparr>], idGenerator := 3\<rparr>)"
  by (simp add: onceAdded_def addNode_def findNode_def newGraphDb_def nodeA_def Let_def
      nodesChanged_def)

text \<open>
  C3, amended: when at least one unique key is configured, then for any payload (its key
  fields populated or not) \<open>addNode(p)\<close> called twice returns the same node both times, and
  the second call changes nothing: no id is allocated and no node appended. The first call
  either leaves the graph as it is or appends the one new node under the next id.
\<close>

theorem addNode_dedup:
  assumes "uniqueKeys g \<noteq> []"
  shows "\<exists>n g1. addNode g p None up = (Inr n, g1) \<and> addNode g1 p None up' = (Inr n, g1)
           \<and> (g1 = g \<or> (nodes g1 = nodes g @ [n] \<and> id_n n = idGenerator g
                          \<and> idGenerator g1 = idGenerator g + 1))"
proof -
  obtain r where r: "findNode g p = Inr r"
    using findNode_total by blast
  show ?thesis
  proof (cases r)
    case (Some n)
    with r have "addNode g p None up = (Inr n, g)" "addNode g p None up' = (Inr n, g)"
      by (simp_all add: addNode_def)
    then show ?thesis by blast
  next
    case None
    define n where "n = \<lparr>id_n = idGenerator g, level = 0, selected = None, loaded = None,
                         payload = Some p\<rparr>"
    define g1 where
      "g1 = nodesChanged (g\<lparr>nodes := nodes g @ [n], idGenerator := idGenerator g + 1\<rparr>)"
    from assms obtain k ks where ks: "uniqueKeys g = k # ks"
      by (cases "uniqueKeys g") auto
    have first: "addNode g p None up = (Inr n, g1)"
      using r None by (simp add: addNode_def n_def g1_def Let_def)
    have "toStr (getPayloadField n k) = toStr (getField p k)"
      by (simp add: getPayloadField_def n_def)
    then have "findNodeStep g1 p None k = Inr (Some n)"
      by (simp add: findNodeStep_def uniqueIndexes_eq g1_def ks keyBy_snoc nodesChanged_def)
    moreover have "reduceE (findNodeStep g1 p) ks (Some n) = Inr (Some n)"
      by (rule reduceE_findNodeStep_found) (auto simp: g1_def ks nodesChanged_def)
    ultimately have "findNode g1 p = Inr (Some n)"
      by (simp add: findNode_def g1_def ks nodesChanged_def)
    then have "addNode g1 p None up' = (Inr n, g1)"
      by (simp add: addNode_def)
    with first show ?thesis
      by (intro exI [of _ n] exI [of _ g1]) (simp add: g1_def n_def nodesChanged_def)
  qed
qed

theorem addNode_dedup_witness:
  "uniqueKeys fixture \<noteq> []
   \<and> addNode fixture (urn ''D'') None None
       = (Inr (nodeD\<lparr>level := 0\<rparr>), fixture\<lparr>nodes := nodes fixture @ [nodeD\<lparr>level := 0\<rparr>], idGenerator := 5\<rparr>)
   \<and> addNode (fixture\<lparr>nodes := nodes fixture @ [nodeD\<lparr>level := 0\<rparr>], idGenerator := 5\<rparr>) (urn ''D'') None None
       = (Inr (nodeD\<lparr>level := 0\<rparr>), fixture\<lparr>nodes := nodes fixture @ [nodeD\<lparr>level := 0\<rparr>], idGenerator := 5\<rparr>)"
proof -
  have h: "uniqueKeys fixture \<noteq> []" by (simp add: fixture_def)
  have e: "addNode fixture (urn ''D'') None None
       = (Inr (nodeD\<lparr>level := 0\<rparr>), fixture\<lparr>nodes := nodes fixture @ [nodeD\<lparr>level := 0\<rparr>], idGenerator := 5\<rparr>)"
    by code_simp
  from addNode_dedup [OF h, of "urn ''D''" None None] h e show ?thesis by auto
qed

subsection \<open>C4: the closure of a child of the root\<close>

text \<open>
  C4 says that in a graph where \<open>A\<close> is at level 0 and \<open>C\<close> is a child of \<open>A\<close> at level 1,
  \<open>getHierarchyNodes(C, true, 0)\<close> returns exactly \<open>[C, A]\<close>. The code does so when no
  parent index is kept (\<open>getHierarchyNodes_child_of_root_fresh\<close>), and it never expands a
  node at the stop level (\<open>hierarchyLoop_round\<close>), but it breaks the claim on an object
  that the operations build. \<open>K\<close>, at level 1, is first a second parent of \<open>N\<close> and has
  no parent itself; its closure is queried, which keeps the
  parent index; then \<open>addNode(K, A)\<close> finds \<open>K\<close> and only appends the edge \<open>K \<rightarrow> A\<close>, so
  \<open>nodes\<close> is not set and the index stays. The graph now is the one of the claim (\<open>A\<close> at
  level 0, \<open>K\<close> at level 1, \<open>K\<close>'s only parent edge leads to \<open>A\<close>), and
  \<open>getHierarchyNodes(K, true, 0)\<close> returns \<open>[K]\<close>, not \<open>[K, A]\<close>: the getter
  \<open>parentsByNodeId\<close> reads \<open>edgesByFrom\<close> but names only \<open>nodes\<close> as its dependent key.
  After any write to \<open>nodes\<close> the same call returns \<open>[K, A]\<close>.
\<close>

theorem getHierarchyNodes_stale_parents:
  "run (newGraphDb\<lparr>uniqueKeys := [''urn'']\<rparr>) lateParentCalls = Some lateParent
   \<and> nodesById lateParent (id_n nodeA) = Some nodeA \<and> level nodeA = 0
   \<and> nodesById lateParent (id_n nodeK) = Some nodeK \<and> level nodeK = 1
   \<and> filter (\<lambda>e. from_e e = id_n nodeK) (edges lateParent)
       = [\<lparr>from_e = id_n nodeK, to_e = id_n nodeA\<rparr>]
   \<and> map_option fst (getHierarchyNodes lateParent (Some nodeK) True 0) = Some (Inr [Some nodeK])
   \<and> map_option fst (getHierarchyNodes (nodesChanged lateParent) (Some nodeK) True 0)
       = Some (Inr [Some nodeK, Some nodeA])"
proof -
  have 1: "run (newGraphDb\<lparr>uniqueKeys := [''urn'']\<rparr>) lateParentCalls = Some lateParent"
    by (rule lateParent_built)
  have 2: "nodesById lateParent (id_n nodeA) = Some nodeA" "level nodeA = 0"
    "nodesById lateParent (id_n nodeK) = Some nodeK" "level nodeK = 1"
    "filter (\<lambda>e. from_e e = id_n nodeK) (edges lateParent)
       = [\<lparr>from_e = id_n nodeK, to_e = id_n nodeA\<rparr>]"
    by (simp_all add: nodesById_def keyBy_def example_defs)
  have 3: "map_option fst (getHierarchyNodes lateParent (Some nodeK) True 0) = Some (Inr [Some nodeK])"
    by code_simp
  have 4: "map_option fst (getHierarchyNodes (nodesChanged lateParent) (Some nodeK) True 0)
       = Some (Inr [Some nodeK, Some nodeA])"
    by code_simp
  from 1 2 3 4 show ?thesis by simp
qed

subsection \<open>C5: no deduplication in the closure\<close>

text \<open>
  C5: in the diamond, \<open>A\<close> is reached from \<open>D\<close> along \<open>D \<rightarrow> P \<rightarrow> A\<close> and along
  \<open>D \<rightarrow> Q \<rightarrow> A\<close>, and the sequence returned by \<open>getHierarchyNodes(D, true, 0)\<close> holds \<open>A\<close>
  twice.
\<close>

theorem getHierarchyNodes_repeats_converging:
  "map_option fst (getHierarchyNodes diamond (Some nodeD) True 0)
     = Some (Inr [Some nodeD, Some nodeP, Some nodeQ, Some nodeA, Some nodeA])
   \<and> count_list [Some nodeD, Some nodeP, Some nodeQ, Some nodeA, Some nodeA] (Some nodeA) = 2
   \<and> {\<lparr>from_e = id_n nodeD, to_e = id_n nodeP\<rparr>, \<lparr>from_e = id_n nodeP, to_e = id_n nodeA\<rparr>,
       \<lparr>from_e = id_n nodeD, to_e = id_n nodeQ\<rparr>, \<lparr>from_e = id_n nodeQ, to_e = id_n nodeA\<rparr>}
       \<subseteq> set (edges diamond)"
proof -
  have "map_option fst (getHierarchyNodes diamond (Some nodeD) True 0)
     = Some (Inr [Some nodeD, Some nodeP, Some nodeQ, Some nodeA, Some nodeA])"
    by code_simp
  then show ?thesis by (simp add: example_defs)
qed

subsection \<open>C6: \<open>toggle\<close> on an unknown id\<close>

text \<open>
  C6 as written fails in one respect: the class has no NotFound condition. What
  \<open>toggle(7)\<close> raises on the three-node graph is the runtime's \<open>TypeError\<close> (from
  destructuring \<open>undefined\<close>), and \<open>toggle(2)\<close> raises the very same error for an id that
  is found, on the graph where an edge of node 2 names a missing node: the failure does
  not tell an unknown id from any other fault.
\<close>

theorem toggle_not_found_counterexample:
  "nodesById fixture 7 = None
   \<and> map_option fst (toggle fixture 7) = Some (Inl TypeError)
   \<and> nodesById dangling 2 = Some nodeC2
   \<and> map_option fst (toggle dangling 2) = Some (Inl TypeError)"
proof -
  have "nodesById fixture 7 = None" "nodesById dangling 2 = Some nodeC2"
    by (simp_all add: nodesById_def keyBy_def example_defs)
  moreover have "map_option fst (toggle fixture 7) = Some (Inl TypeError)"
    "map_option fst (toggle dangling 2) = Some (Inl TypeError)"
    by code_simp+
  ultimately show ?thesis by simp
qed

text \<open>
  C6, amended: for an id that no node has, \<open>nodesById[id]\<close> is undefined and \<open>toggle(id)\<close>
  fails, with the \<open>TypeError\<close> that the destructuring throws; the failure is total, the
  object is left exactly as it was and no field of any node changes.
\<close>

theorem toggle_unknown_id_fails:
  "(nodesById g i = None \<longleftrightarrow> i \<notin> id_n ` set (nodes g))
   \<and> (nodesById g i = None \<longrightarrow> toggle g i = Some (Inl TypeError, g))"
proof -
  have "toggle g i = Some (Inl TypeError, g)" if "nodesById g i = None"
    using that by (simp add: toggle_def)
  then show ?thesis using nodesById_None_iff [of g i] by blast
qed

theorem toggle_unknown_id_fails_witness:
  "nodesById fixture 7 = None \<and> 7 \<notin> id_n ` set (nodes fixture)
   \<and> toggle fixture 7 = Some (Inl TypeError, fixture)"
proof -
  have "nodesById fixture 7 = None"
    by (simp add: nodesById_def keyBy_def example_defs)
  with toggle_unknown_id_fails [of fixture 7] show ?thesis by blast
qed

subsection \<open>C7: \<open>addEdge\<close>\<close>

text \<open>
  C7: \<open>addEdge(ancestor, descendant)\<close> appends \<open>{from: descendant.id, to: ancestor.id}\<close>
  exactly when no edge among those with the same \<open>from\<close> has the same \<open>to\<close>, which is to
  say when that edge is not yet in the collection; otherwise the graph is unchanged. The
  reverse pair is not looked at: the three-node graph holds the edge 3 \<rightarrow> 1, and
  \<open>addEdge(C, A)\<close> appends 1 \<rightarrow> 3 next to it.
\<close>

theorem addEdge_dedup_same_from:
  "addEdge g ancestor descendant =
     (if \<exists>e \<in> set (filter (\<lambda>e. from_e e = id_n descendant) (edges g)). to_e e = id_n ancestor
      then g
      else g\<lparr>edges := edges g @ [\<lparr>from_e = id_n descendant, to_e = id_n ancestor\<rparr>]\<rparr>)
   \<and> ((\<exists>e \<in> set (filter (\<lambda>e. from_e e = id_n descendant) (edges g)). to_e e = id_n ancestor)
        \<longleftrightarrow> \<lparr>from_e = id_n descendant, to_e = id_n ancestor\<rparr> \<in> set (edges g))
   \<and> \<lparr>from_e = 3, to_e = 1\<rparr> \<in> set (edges fixture)
   \<and> edges (addEdge fixture nodeC nodeA) = edges fixture @ [\<lparr>from_e = 1, to_e = 3\<rparr>]"
proof -
  have 1: "addEdge g ancestor descendant =
     (if \<exists>e \<in> set (filter (\<lambda>e. from_e e = id_n descendant) (edges g)). to_e e = id_n ancestor
      then g
      else g\<lparr>edges := edges g @ [\<lparr>from_e = id_n descendant, to_e = id_n ancestor\<rparr>]\<rparr>)"
    by (simp add: addEdge_def edgesByFrom_def orEmpty_groupBy find_None_iff)
  have 2: "(\<exists>e \<in> set (filter (\<lambda>e. from_e e = id_n descendant) (edges g)). to_e e = id_n ancestor)
        \<longleftrightarrow> \<lparr>from_e = id_n descendant, to_e = id_n ancestor\<rparr> \<in> set (edges g)"
  proof
    assume "\<exists>e \<in> set (filter (\<lambda>e. from_e e = id_n descendant) (edges g)). to_e e = id_n ancestor"
    then obtain e where e: "e \<in> set (edges g)" "from_e e = id_n descendant" "to_e e = id_n ancestor"
      by auto
    have "e = \<lparr>from_e = id_n descendant, to_e = id_n ancestor\<rparr>"
      by (rule edge.equality) (simp_all add: e)
    then show "\<lparr>from_e = id_n descendant, to_e = id_n ancestor\<rparr> \<in> set (edges g)"
      using e(1) by simp
  next
    assume "\<lparr>from_e = id_n descendant, to_e = id_n ancestor\<rparr> \<in> set (edges g)"
    then show "\<exists>e \<in> set (filter (\<lambda>e. from_e e = id_n descendant) (edges g)). to_e e = id_n ancestor"
      by (intro bexI [of _ "\<lparr>from_e = id_n descendant, to_e = id_n ancestor\<rparr>"]) simp_all
  qed
  have 3: "\<lparr>from_e = 3, to_e = 1\<rparr> \<in> set (edges fixture)"
    by (simp add: fixture_def)
  have 4: "edges (addEdge fixture nodeC nodeA) = edges fixture @ [\<lparr>from_e = 1, to_e = 3\<rparr>]"
    by (simp add: addEdge_def edgesByFrom_def orEmpty_groupBy example_defs)
  from 1 2 3 4 show ?thesis by blast
qed

theorem addEdge_dedup_same_from_witness:
  "(\<exists>e \<in> set (filter (\<lambda>e. from_e e = id_n nodeC) (edges fixture)). to_e e = id_n nodeA)
   \<and> addEdge fixture nodeA nodeC = fixture
   \<and> \<not> (\<exists>e \<in> set (filter (\<lambda>e. from_e e = id_n nodeA) (edges fixture)). to_e e = id_n nodeC)
   \<and> addEdge fixture nodeC nodeA = fixture\<lparr>edges := edges fixture @ [\<lparr>from_e = 1, to_e = 3\<rparr>]\<rparr>"
  using addEdge_dedup_same_from [of fixture nodeA nodeC]
    addEdge_dedup_same_from [of fixture nodeC nodeA]
  by (simp add: example_defs)

subsection \<open>C8: node ids\<close>

text \<open>
  C8 as written fails for \<open>setNodeAttrs\<close>: its patch is a \<open>Partial<INode<T>>\<close> and may
  carry an \<open>id\<close>, which the merge writes into the node. Here node 3 is given the id 1,
  an id that is in use.
\<close>

theorem setNodeAttrs_id_counterexample:
  "map id_n (nodes fixture) = [1, 2, 3]
   \<and> map id_n (nodes (setNodeAttrs fixture 3 (noAttrs\<lparr>id_a := Some 1\<rparr>))) = [1, 2, 1]"
  by (simp add: setNodeAttrs_def mergeAttrs_def noAttrs_def example_defs nodesChanged_def)

text \<open>
  C8, amended: along any sequence of \<open>addNode\<close>, \<open>addEdge\<close>, \<open>setNodeAttrs\<close> and \<open>toggle\<close>
  calls (and closure queries) in which no patch carries an \<open>id\<close> field, the nodes present before keep their ids
  and positions, and the nodes created since carry, in creation order, the consecutive
  ids from the old value of the generator up to its new value; the generator never
  decreases. From a fresh graph the ids are therefore 1, 2, 3, \<dots> in creation order,
  each used once.
\<close>

theorem ids_assigned_in_order:
  assumes "list_all keepsId cs"
  shows "(run g cs = Some g' \<longrightarrow>
            idGenerator g \<le> idGenerator g'
            \<and> map id_n (nodes g') = map id_n (nodes g) @ [idGenerator g .. idGenerator g' - 1])
     \<and> (run newGraphDb cs = Some g'' \<longrightarrow>
            map id_n (nodes g'') = [1 .. idGenerator g'' - 1]
            \<and> sorted_wrt (<) (map id_n (nodes g'')))"
  using run_ids [OF assms, of g g'] run_ids [OF assms, of newGraphDb g'']
  by (simp add: newGraphDb_def strict_sorted_iff)

theorem ids_assigned_in_order_witness:
  "list_all keepsId [AddNode (urn ''A'') None None, Toggle 1, GetHierarchyNodes nodeA True 0,
       SetNodeAttrs 1 (selectedPatch False),
       AddNode (urn ''B'') (Some nodeA) (Some True), AddEdge nodeA nodeB, AddNode (urn ''A'') None None]
   \<and> run newGraphDb [AddNode (urn ''A'') None None, Toggle 1, GetHierarchyNodes nodeA True 0,
       SetNodeAttrs 1 (selectedPatch False),
       AddNode (urn ''B'') (Some nodeA) (Some True), AddEdge nodeA nodeB, AddNode (urn ''A'') None None]
       = Some \<lparr>nodes = [nodeA\<lparr>selected := Some False\<rparr>, nodeB, nodeA\<lparr>id_n := 3\<rparr>],
               edges = [\<lparr>from_e = 1, to_e = 2\<rparr>, \<lparr>from_e = 2, to_e = 1\<rparr>],
               uniqueKeys = [], idGenerator = 4, parentsMemo = None, childrenMemo = None\<rparr>
   \<and> map id_n [nodeA\<lparr>selected := Some False\<rparr>, nodeB, nodeA\<lparr>id_n := 3\<rparr>] = [1 .. 4 - 1]
   \<and> sorted_wrt (<) (map id_n [nodeA\<lparr>selected := Some False\<rparr>, nodeB, nodeA\<lparr>id_n := 3\<rparr>])"
proof -
  let ?cs = "[AddNode (urn ''A'') None None, Toggle 1, GetHierarchyNodes nodeA True 0,
       SetNodeAttrs 1 (selectedPatch False),
       AddNode (urn ''B'') (Some nodeA) (Some True), AddEdge nodeA nodeB, AddNode (urn ''A'') None None]"
  let ?G = "\<lparr>nodes = [nodeA\<lparr>selected := Some False\<rparr>, nodeB, nodeA\<lparr>id_n := 3\<rparr>],
               edges = [\<lparr>from_e = 1, to_e = 2\<rparr>, \<lparr>from_e = 2, to_e = 1\<rparr>],
               uniqueKeys = [], idGenerator = 4, parentsMemo = None, childrenMemo = None\<rparr>"
  have k: "list_all keepsId ?cs" by (simp add: selectedPatch_def noAttrs_def)
  have g: "run newGraphDb ?cs = Some ?G"
    by code_simp
  from ids_assigned_in_order [OF k, of newGraphDb ?G ?G] g
  have "map id_n (nodes ?G) = [1 .. idGenerator ?G - 1] \<and> sorted_wrt (<) (map id_n (nodes ?G))"
    by blast
  then show ?thesis using k g by simp
qed

subsection \<open>C9: the frame of \<open>setNodeAttrs\<close>\<close>



subsection \<open>C10: toggling the unselected root\<close>

text \<open>
  C10: in a graph whose node ids are unique (\<open>INode.id\<close> is the "unique id for a node", and
  every graph built by calls that patch no id is such a graph), toggling an unselected node at level 0 returns
  normally; afterwards every node at a level above 0 has \<open>selected = false\<close>, every node
  at a level below 0 is exactly as before, the toggled node has \<open>selected = true\<close>, and no
  id or level has moved. The chain that the call selects, \<open>getHierarchyNodes(node, true)\<close>,
  is the node alone, since its level is the stop level.
\<close>

theorem toggle_unselected_root:
  assumes "distinct (map id_n (nodes g))" and "nodesById g i = Some r"
    and "level r = 0" and "\<not> truthy (selected r)"
  shows "getHierarchyNodes g (Some r) True 0 = Some (Inr [Some r], g)
     \<and> (\<exists>g'. toggle g i = Some (Inr (), g')
          \<and> length (nodes g') = length (nodes g)
          \<and> (\<forall>k < length (nodes g).
               id_n (nodes g' ! k) = id_n (nodes g ! k)
               \<and> level (nodes g' ! k) = level (nodes g ! k)
               \<and> (0 < level (nodes g ! k) \<longrightarrow> selected (nodes g' ! k) = Some False)
               \<and> (level (nodes g ! k) < 0 \<longrightarrow> nodes g' ! k = nodes g ! k)
               \<and> (id_n (nodes g ! k) = i \<longrightarrow> selected (nodes g' ! k) = Some True)))"
proof -
  define F where "F = (\<lambda>n::node. if id_n n = id_n r then n\<lparr>selected := Some (\<not> truthy (selected r))\<rparr>
                                else if id_n n \<in> id_n ` set [r] then n\<lparr>selected := Some True\<rparr>
                                else if id_n n \<in> id_n ` set (downstreamNodes g) then n\<lparr>selected := Some False\<rparr>
                                else n)"
  have r: "r \<in> set (nodes g)" "id_n r = i"
    using assms(2) nodesById_SomeD by blast+
  have inj: "inj_on id_n (set (nodes g))"
    using assms(1) by (simp add: distinct_map)
  have hier: "getHierarchyNodes g (Some r) True 0 = Some (Inr [Some r], g)"
    using assms(3)
    by (simp add: getHierarchyNodes_def hierarchyLoop_Cons hierarchyLoop_Nil expandNode_def)
  have "toggleSets g r = Some (Inr (map Some (downstreamNodes g), map Some [r]), g)"
    using assms(3,4) hier by (simp add: toggleSets_def getIsUpstream_def)
  moreover have "applySelection g r (map Some (downstreamNodes g)) (map Some [r]) =
      (Inr (), nodesChanged (g\<lparr>nodes := map F (nodes g)\<rparr>))"
    unfolding F_def by (rule applySelection_map_Some)
  ultimately have tog: "toggle g i = Some (Inr (), nodesChanged (g\<lparr>nodes := map F (nodes g)\<rparr>))"
    using assms(2) by (simp add: toggle_def)
  have "id_n (F n) = id_n n \<and> level (F n) = level n
        \<and> (0 < level n \<longrightarrow> selected (F n) = Some False)
        \<and> (level n < 0 \<longrightarrow> F n = n)
        \<and> (id_n n = i \<longrightarrow> selected (F n) = Some True)" if n: "n \<in> set (nodes g)" for n
  proof -
    have ne: "id_n n \<noteq> id_n r" if "level n \<noteq> 0"
      using that inj n r(1) assms(3) by (auto dest: inj_onD)
    have down: "id_n n \<in> id_n ` set (downstreamNodes g) \<longleftrightarrow> 0 < level n"
    proof
      assume "id_n n \<in> id_n ` set (downstreamNodes g)"
      then obtain m where m: "m \<in> set (nodes g)" "0 < level m" "id_n n = id_n m"
        by (auto simp: downstreamNodes_def)
      then have "n = m" using inj n by (auto dest: inj_onD)
      then show "0 < level n" using m by simp
    next
      assume "0 < level n"
      then show "id_n n \<in> id_n ` set (downstreamNodes g)"
        using n by (auto simp: downstreamNodes_def)
    qed
    show ?thesis
      using ne down assms(4) r(2) unfolding F_def by auto
  qed
  then have "\<forall>k < length (nodes g).
               id_n (F (nodes g ! k)) = id_n (nodes g ! k)
               \<and> level (F (nodes g ! k)) = level (nodes g ! k)
               \<and> (0 < level (nodes g ! k) \<longrightarrow> selected (F (nodes g ! k)) = Some False)
               \<and> (level (nodes g ! k) < 0 \<longrightarrow> F (nodes g ! k) = nodes g ! k)
               \<and> (id_n (nodes g ! k) = i \<longrightarrow> selected (F (nodes g ! k)) = Some True)"
    by simp
  then show ?thesis using hier tog by (simp add: nodesChanged_def)
qed

theorem toggle_unselected_root_witness:
  "distinct (map id_n (nodes fixture)) \<and> nodesById fixture 1 = Some nodeA \<and> level nodeA = 0
   \<and> \<not> truthy (selected nodeA)
   \<and> getHierarchyNodes fixture (Some nodeA) True 0 = Some (Inr [Some nodeA], fixture)
   \<and> toggle fixture 1 = Some (Inr (), fixture\<lparr>nodes := [nodeA\<lparr>selected := Some True\<rparr>, nodeB,
         nodeC\<lparr>selected := Some False\<rparr>]\<rparr>)"
proof -
  have h: "distinct (map id_n (nodes fixture))" "nodesById fixture 1 = Some nodeA"
    "level nodeA = 0" "\<not> truthy (selected nodeA)"
    by (simp_all add: nodesById_def keyBy_def example_defs)
  have t: "toggle fixture 1 = Some (Inr (), fixture\<lparr>nodes := [nodeA\<lparr>selected := Some True\<rparr>, nodeB,
         nodeC\<lparr>selected := Some False\<rparr>]\<rparr>)"
    by code_simp
  from toggle_unselected_root [OF h] h t show ?thesis by simp
qed

end
